theory Spec2Isabelle
  imports Complex_Main "HOL-Library.Log_Nat" "HOL-Library.Signed_Division"
    "HOL-Library.Product_Lexorder"
begin

section \<open>Machine arithmetic of the C++ source\<close>

text \<open>
  The class \<open>uhd::time_spec_t\<close> (host/include/uhd/types/time_spec.hpp) computes with
  \<open>int64_t\<close> and \<open>double\<close>. Every operation of the class is \<open>noexcept\<close>: the only way
  an operation can fail is undefined behaviour of the language. The model makes each of
  these an explicit error value.
\<close>

datatype error =
    SignedOverflow    \<comment> \<open>an \<open>int64_t\<close> result outside \<open>[-2^63, 2^63)\<close>\<close>
  | DivideByZero      \<comment> \<open>\<open>int64_t\<close> division with divisor 0\<close>
  | FloatToIntRange   \<comment> \<open>\<open>static_cast<int64_t>\<close> of a double whose truncation is no \<open>int64_t\<close>\<close>
  | NonFinite         \<comment> \<open>a double operation whose result is an infinity or a NaN\<close>

fun bnd :: "error + 'a \<Rightarrow> ('a \<Rightarrow> error + 'b) \<Rightarrow> error + 'b" where
  "bnd (Inl e) f = Inl e"
| "bnd (Inr v) f = f v"

subsection \<open>\<open>int64_t\<close>\<close>

definition is_int64 :: "int \<Rightarrow> bool" where
  "is_int64 i \<longleftrightarrow> - (2 ^ 63) \<le> i \<and> i < 2 ^ 63"

definition i64 :: "int \<Rightarrow> error + int" where
  "i64 i = (if is_int64 i then Inr i else Inl SignedOverflow)"

definition i64_add :: "int \<Rightarrow> int \<Rightarrow> error + int" where
  "i64_add a b = i64 (a + b)"

definition i64_sub :: "int \<Rightarrow> int \<Rightarrow> error + int" where
  "i64_sub a b = i64 (a - b)"

definition i64_mul :: "int \<Rightarrow> int \<Rightarrow> error + int" where
  "i64_mul a b = i64 (a * b)"

definition i64_div :: "int \<Rightarrow> int \<Rightarrow> error + int" where
  \<comment> \<open>C++ \<open>/\<close> on integers truncates toward zero\<close>
  "i64_div a b = (if b = 0 then Inl DivideByZero else i64 (a sdiv b))"

subsection \<open>\<open>double\<close>: IEEE 754 binary64, round to nearest, ties to even\<close>

text \<open>
  A finite double is the rational number it denotes; \<open>rnd\<close> rounds an exact result to
  the nearest double (53 significant bits, least exponent \<open>-1074\<close>, ties to the even
  significand). Each operation is rounded on its own: no fused multiply-add and no
  extended precision. Arguments are finite doubles. An operation whose rounded result
  is not finite gives \<open>NonFinite\<close>: wherever that can happen in this class the value
  is next converted to \<open>int64_t\<close>, which is undefined. The two zeros are not told
  apart; they differ only under division and in their text.
\<close>

type_synonym double = rat

definition ilog2 :: "rat \<Rightarrow> int" where
  \<comment> \<open>the exponent \<open>e\<close> with \<open>2^e \<le> |q| < 2^(e+1)\<close>, for \<open>q \<noteq> 0\<close>\<close>
  "ilog2 q = (case quotient_of \<bar>q\<bar> of (n, d) \<Rightarrow>
     let e = bitlen n - bitlen d in if 2 powi e \<le> \<bar>q\<bar> then e else e - 1)"

definition ulp_exp :: "rat \<Rightarrow> int" where
  "ulp_exp q = max (ilog2 q - 52) (- 1074)"

definition rint :: "rat \<Rightarrow> int" where
  \<comment> \<open>nearest integer, ties to even\<close>
  "rint x = (let f = \<lfloor>x\<rfloor>; r = x - of_int f in
     if r < 1 / 2 then f else if 1 / 2 < r then f + 1 else if even f then f else f + 1)"

definition rnd :: "rat \<Rightarrow> double" where
  "rnd q = (if q = 0 then 0 else of_int (rint (q / 2 powi ulp_exp q)) * 2 powi ulp_exp q)"

definition repr :: "rat \<Rightarrow> bool" where
  \<comment> \<open>the values of the double format: a significand below \<open>2^53\<close> at an exponent
     from \<open>-1074\<close> on; \<open>rnd\<close> fixes exactly these (lemma \<open>repr_iff\<close>)\<close>
  "repr x \<longleftrightarrow> (\<exists>m e. x = of_int m * 2 powi e \<and> \<bar>m\<bar> < 2 ^ 53 \<and> - 1074 \<le> e)"

definition is_double :: "rat \<Rightarrow> bool" where
  "is_double q \<longleftrightarrow> rnd q = q \<and> \<bar>q\<bar> < 2 ^ 1024"

definition fl :: "rat \<Rightarrow> error + double" where
  "fl q = (let r = rnd q in if \<bar>r\<bar> < 2 ^ 1024 then Inr r else Inl NonFinite)"

definition d_add :: "double \<Rightarrow> double \<Rightarrow> error + double" where
  "d_add x y = fl (x + y)"

definition d_sub :: "double \<Rightarrow> double \<Rightarrow> error + double" where
  "d_sub x y = fl (x - y)"

definition d_mul :: "double \<Rightarrow> double \<Rightarrow> error + double" where
  "d_mul x y = fl (x * y)"

definition d_div :: "double \<Rightarrow> double \<Rightarrow> error + double" where
  "d_div x y = (if y = 0 then Inl NonFinite else fl (x / y))"

definition itrunc :: "rat \<Rightarrow> int" where
  \<comment> \<open>the integer part, toward zero\<close>
  "itrunc x = (if 0 \<le> x then \<lfloor>x\<rfloor> else \<lceil>x\<rceil>)"

definition to_i64 :: "double \<Rightarrow> error + int" where
  \<comment> \<open>\<open>static_cast<int64_t>(x)\<close>\<close>
  "to_i64 x = (if is_int64 (itrunc x) then Inr (itrunc x) else Inl FloatToIntRange)"

definition of_i64 :: "int \<Rightarrow> double" where
  \<comment> \<open>the implicit conversion of an \<open>int64_t\<close> operand of a double operation, rounded
     when the integer has more than 53 significant bits\<close>
  "of_i64 i = rnd (of_int i)"

definition d_trunc :: "double \<Rightarrow> double" where
  \<comment> \<open>\<open>std::trunc\<close>: the integer part of a double is a double\<close>
  "d_trunc x = of_int (itrunc x)"

definition lit :: "rat \<Rightarrow> double" where
  \<comment> \<open>a decimal literal of the source text, such as \<open>0.9\<close>\<close>
  "lit q = rnd q"

section \<open>The class \<open>time_spec_t\<close>\<close>

text \<open>
  The private members \<open>_full_secs\<close> and \<open>_frac_secs\<close>. A member function takes the
  object as its first argument and returns the updated object.
\<close>

record time_spec_t =
  full_secs :: int
  frac_secs :: double

definition ASAP :: double where
  "ASAP = 0"

definition fast_llround :: "double \<Rightarrow> error + int" where
  "fast_llround x = bnd (d_add x (1 / 2)) to_i64"

definition time_spec_default :: time_spec_t where
  "time_spec_default = \<lparr>full_secs = 0, frac_secs = 0\<rparr>"

definition time_spec_full :: "int \<Rightarrow> time_spec_t" where
  "time_spec_full full_s = \<lparr>full_secs = full_s, frac_secs = 0\<rparr>"

definition set_from :: "time_spec_t \<Rightarrow> int \<Rightarrow> double \<Rightarrow> error + time_spec_t" where
  "set_from this full_s frac_s =
     bnd (to_i64 frac_s) (\<lambda>frac_int.
     bnd (i64_add full_s frac_int) (\<lambda>fs.
     bnd (d_sub frac_s (of_i64 frac_int)) (\<lambda>fr.
       if fr < 0
       then bnd (i64_sub fs 1) (\<lambda>fs'.
            bnd (d_add fr 1) (\<lambda>fr'.
              Inr (this\<lparr>full_secs := fs', frac_secs := fr'\<rparr>)))
       else Inr (this\<lparr>full_secs := fs, frac_secs := fr\<rparr>))))"

definition time_spec :: "int \<Rightarrow> double \<Rightarrow> error + time_spec_t" where
  \<comment> \<open>\<open>time_spec_t(int64_t full_secs, double frac_secs)\<close>\<close>
  "time_spec full_s frac_s = set_from time_spec_default full_s frac_s"

definition time_spec_real :: "double \<Rightarrow> error + time_spec_t" where
  \<comment> \<open>\<open>time_spec_t(double secs)\<close>\<close>
  "time_spec_real secs = time_spec 0 secs"

definition time_spec_ticks :: "int \<Rightarrow> int \<Rightarrow> double \<Rightarrow> error + time_spec_t" where
  \<comment> \<open>\<open>time_spec_t(int64_t full_secs, int64_t tick_count, double tick_rate)\<close>\<close>
  "time_spec_ticks full_s tick_count tick_rate =
     bnd (d_div (of_i64 tick_count) tick_rate) (time_spec full_s)"

definition get_full_secs :: "time_spec_t \<Rightarrow> int" where
  "get_full_secs t = full_secs t"

definition get_frac_secs :: "time_spec_t \<Rightarrow> double" where
  "get_frac_secs t = frac_secs t"

definition from_ticks :: "int \<Rightarrow> double \<Rightarrow> error + time_spec_t" where
  "from_ticks ticks tick_rate =
     bnd (to_i64 tick_rate) (\<lambda>rate_i.
     bnd (d_sub tick_rate (of_i64 rate_i)) (\<lambda>rate_f.
     bnd (i64_div ticks rate_i) (\<lambda>secs_full.
     bnd (i64_mul secs_full rate_i) (\<lambda>p.
     bnd (i64_sub ticks p) (\<lambda>ticks_error.
     bnd (d_mul (of_i64 secs_full) rate_f) (\<lambda>q.
     bnd (d_sub (of_i64 ticks_error) q) (\<lambda>ticks_frac.
     bnd (d_div ticks_frac tick_rate) (\<lambda>frac_s.
       time_spec secs_full frac_s))))))))"

definition get_tick_count :: "time_spec_t \<Rightarrow> double \<Rightarrow> error + int" where
  "get_tick_count t tick_rate =
     bnd (d_mul (get_frac_secs t) tick_rate) fast_llround"

definition to_ticks :: "time_spec_t \<Rightarrow> double \<Rightarrow> error + int" where
  "to_ticks t tick_rate =
     bnd (to_i64 tick_rate) (\<lambda>rate_i.
     bnd (d_sub tick_rate (of_i64 rate_i)) (\<lambda>rate_f.
     bnd (i64_mul (get_full_secs t) rate_i) (\<lambda>ticks_full.
     bnd (d_mul (of_i64 (get_full_secs t)) rate_f) (\<lambda>ticks_error.
     bnd (d_mul (get_frac_secs t) tick_rate) (\<lambda>ticks_frac.
     bnd (d_add ticks_error ticks_frac) (\<lambda>s.
     bnd (fast_llround s) (\<lambda>n.
       i64_add ticks_full n)))))))"

definition get_real_secs :: "time_spec_t \<Rightarrow> error + double" where
  "get_real_secs t = d_add (of_i64 (get_full_secs t)) (get_frac_secs t)"

subsection \<open>Addition and subtraction\<close>

definition op_plus :: "time_spec_t \<Rightarrow> time_spec_t \<Rightarrow> error + time_spec_t" where
  "op_plus l r =
     bnd (i64_add (get_full_secs l) (get_full_secs r)) (\<lambda>full_s.
     bnd (d_add (get_frac_secs l) (get_frac_secs r)) (\<lambda>frac_s.
       time_spec full_s frac_s))"

definition op_plus_assign :: "time_spec_t \<Rightarrow> time_spec_t \<Rightarrow> error + time_spec_t" where
  "op_plus_assign this rhs =
     bnd (i64_add (get_full_secs this) (get_full_secs rhs)) (\<lambda>full_s.
     bnd (d_add (get_frac_secs this) (get_frac_secs rhs)) (\<lambda>frac_s.
       set_from this full_s frac_s))"

definition op_plus_double :: "time_spec_t \<Rightarrow> double \<Rightarrow> error + time_spec_t" where
  "op_plus_double l r =
     (let full_secs = d_trunc r in
      bnd (to_i64 full_secs) (\<lambda>i.
      bnd (i64_add (get_full_secs l) i) (\<lambda>full_s.
      bnd (d_sub r full_secs) (\<lambda>rest.
      bnd (d_add (get_frac_secs l) rest) (\<lambda>frac_s.
        time_spec full_s frac_s)))))"

definition op_plus_assign_double :: "time_spec_t \<Rightarrow> double \<Rightarrow> error + time_spec_t" where
  "op_plus_assign_double this rhs =
     (let full_secs = d_trunc rhs in
      bnd (to_i64 full_secs) (\<lambda>i.
      bnd (i64_add (get_full_secs this) i) (\<lambda>full_s.
      bnd (d_sub rhs full_secs) (\<lambda>rest.
      bnd (d_add (get_frac_secs this) rest) (\<lambda>frac_s.
        set_from this full_s frac_s)))))"

definition op_minus :: "time_spec_t \<Rightarrow> time_spec_t \<Rightarrow> error + time_spec_t" where
  "op_minus l r =
     bnd (i64_sub (get_full_secs l) (get_full_secs r)) (\<lambda>full_s.
     bnd (d_sub (get_frac_secs l) (get_frac_secs r)) (\<lambda>frac_s.
       time_spec full_s frac_s))"

definition op_minus_assign :: "time_spec_t \<Rightarrow> time_spec_t \<Rightarrow> error + time_spec_t" where
  "op_minus_assign this rhs =
     bnd (i64_sub (get_full_secs this) (get_full_secs rhs)) (\<lambda>full_s.
     bnd (d_sub (get_frac_secs this) (get_frac_secs rhs)) (\<lambda>frac_s.
       set_from this full_s frac_s))"

definition op_minus_double :: "time_spec_t \<Rightarrow> double \<Rightarrow> error + time_spec_t" where
  "op_minus_double l r =
     (let full_secs = d_trunc r in
      bnd (to_i64 full_secs) (\<lambda>i.
      bnd (i64_sub (get_full_secs l) i) (\<lambda>full_s.
      bnd (d_sub r full_secs) (\<lambda>rest.
      bnd (d_sub (get_frac_secs l) rest) (\<lambda>frac_s.
        time_spec full_s frac_s)))))"

definition op_minus_assign_double :: "time_spec_t \<Rightarrow> double \<Rightarrow> error + time_spec_t" where
  "op_minus_assign_double this rhs =
     (let full_secs = d_trunc rhs in
      bnd (to_i64 full_secs) (\<lambda>i.
      bnd (i64_sub (get_full_secs this) i) (\<lambda>full_s.
      bnd (d_sub rhs full_secs) (\<lambda>rest.
      bnd (d_sub (get_frac_secs this) rest) (\<lambda>frac_s.
        set_from this full_s frac_s)))))"

subsection \<open>Comparison\<close>

definition op_eq :: "time_spec_t \<Rightarrow> time_spec_t \<Rightarrow> bool" where
  "op_eq l r \<longleftrightarrow>
     get_full_secs l = get_full_secs r \<and> get_frac_secs l = get_frac_secs r"

definition op_ne :: "time_spec_t \<Rightarrow> time_spec_t \<Rightarrow> bool" where
  "op_ne l r \<longleftrightarrow>
     get_full_secs l \<noteq> get_full_secs r \<or> get_frac_secs l \<noteq> get_frac_secs r"

definition op_lt :: "time_spec_t \<Rightarrow> time_spec_t \<Rightarrow> bool" where
  "op_lt l r \<longleftrightarrow>
     get_full_secs l < get_full_secs r
     \<or> (get_full_secs l = get_full_secs r \<and> get_frac_secs l < get_frac_secs r)"

definition op_gt :: "time_spec_t \<Rightarrow> time_spec_t \<Rightarrow> bool" where
  "op_gt l r \<longleftrightarrow>
     get_full_secs l > get_full_secs r
     \<or> (get_full_secs l = get_full_secs r \<and> get_frac_secs l > get_frac_secs r)"

definition op_le :: "time_spec_t \<Rightarrow> time_spec_t \<Rightarrow> bool" where
  "op_le l r \<longleftrightarrow>
     get_full_secs l < get_full_secs r
     \<or> (get_full_secs l = get_full_secs r \<and> get_frac_secs l \<le> get_frac_secs r)"

definition op_ge :: "time_spec_t \<Rightarrow> time_spec_t \<Rightarrow> bool" where
  "op_ge l r \<longleftrightarrow>
     get_full_secs l > get_full_secs r
     \<or> (get_full_secs l = get_full_secs r \<and> get_frac_secs l \<ge> get_frac_secs r)"

subsection \<open>Stream output\<close>

text \<open>
  \<open>operator<<\<close> inserts the whole seconds, then the text of the fractional seconds
  without its first character. The fractional seconds are formatted by a
  \<open>std::stringstream\<close> with \<open>std::setprecision(16)\<close> and \<open>std::showpoint\<close> and no
  \<open>floatfield\<close> flag, which the C++ standard defines as the \<open>printf\<close> conversion
  \<open>%#.16g\<close>: 16 significant digits, rounded from the exact value (ties to even), in
  fixed notation when the decimal exponent is from -4 to 15 and in exponent notation
  otherwise, trailing zeros kept. The model takes the output stream in its default
  state (decimal, no width) and the classic locale. The conversion operator to
  \<open>std::string\<close> inserts the pointer \<open>this\<close>, not the value, and is not modelled.

  The type \<open>double\<close> of this theory has one zero. A fractional component of negative
  zero, which \<open>time_spec_t(s, -0.0)\<close> stores, is formatted by the source as
  \<open>-0.000000000000000\<close>; the character removed is then the sign, and the text after
  the whole seconds starts with the digit 0 (\<open>30.000000000000000\<close> for whole = 3).
  \<open>op_stream\<close> does not describe that input, and no statement below is about it.
\<close>

definition digits10 :: nat where
  \<comment> \<open>\<open>std::numeric_limits<double>::digits10\<close>\<close>
  "digits10 = 15"

definition digit :: "int \<Rightarrow> char" where
  "digit d = char_of (48 + d)"

function show_digits :: "int \<Rightarrow> string" where
  "show_digits n = (if n < 10 then [digit n] else show_digits (n div 10) @ [digit (n mod 10)])"
  by pat_completeness auto
termination
  by (relation "measure nat") auto

declare show_digits.simps [simp del]

definition show_int :: "int \<Rightarrow> string" where
  "show_int i = (if i < 0 then CHR ''-'' # show_digits (- i) else show_digits i)"

definition ilog10 :: "rat \<Rightarrow> int" where
  "ilog10 x = (case quotient_of x of (n, d) \<Rightarrow>
     let e = int (length (show_digits n)) - int (length (show_digits d))
     in if 10 powi e \<le> x then e else e - 1)"

definition fmt_g_pos :: "nat \<Rightarrow> rat \<Rightarrow> string" where
  "fmt_g_pos p x =
     (if x = 0 then ''0.'' @ replicate (p - 1) CHR ''0''
      else
        let x0 = ilog10 x;
            m0 = rint (x / 10 powi (x0 - int p + 1));
            m = (if m0 = 10 ^ p then 10 ^ (p - 1) else m0);
            e = (if m0 = 10 ^ p then x0 + 1 else x0);
            ds = show_digits m
        in if e < - 4 \<or> int p \<le> e
           then take 1 ds @ ''.'' @ drop 1 ds @ ''e'' @ (if e < 0 then ''-'' else ''+'')
                @ (if \<bar>e\<bar> < 10 then ''0'' else '''') @ show_digits \<bar>e\<bar>
           else if e < 0
           then ''0.'' @ replicate (nat (- e - 1)) CHR ''0'' @ ds
           else take (nat e + 1) ds @ ''.'' @ drop (nat e + 1) ds)"

definition fmt_g :: "nat \<Rightarrow> rat \<Rightarrow> string" where
  "fmt_g p x = (if x < 0 then CHR ''-'' # fmt_g_pos p (- x) else fmt_g_pos p x)"

definition op_stream :: "time_spec_t \<Rightarrow> string" where
  \<comment> \<open>\<open>operator<<\<close>: the characters inserted into \<open>os\<close>\<close>
  "op_stream t =
     (let ss_frac = fmt_g (digits10 + 1) (get_frac_secs t)
      in show_int (get_full_secs t) @ drop 1 ss_frac)"

text \<open>
  The non-integer tick rate of the specification's round trip, \<open>61.44e6 / 27\<close>: the
  quotient of the two doubles, rounded.
\<close>

definition rate_61_44e6_by_27 :: double where
  "rate_61_44e6_by_27 = rnd (61440000 / 27)"

text \<open>The normalization invariant of the specification.\<close>

definition normalized :: "time_spec_t \<Rightarrow> bool" where
  "normalized t \<longleftrightarrow> is_int64 (full_secs t) \<and> is_double (frac_secs t)
     \<and> 0 \<le> frac_secs t \<and> frac_secs t < 1"

section \<open>Properties of the rounding function\<close>

subsection \<open>Powers of two and the binary exponent\<close>

lemma pow2_pos [simp]: "0 < (2::rat) powi e"
  by simp

lemma pow2_add: "(2::rat) powi (a + b) = 2 powi a * 2 powi b"
  by (simp add: power_int_add)

lemma pow2_mono: "a \<le> b \<Longrightarrow> (2::rat) powi a \<le> 2 powi b"
  by (rule power_int_increasing) simp_all

lemma pow2_less_iff: "(2::rat) powi a < 2 powi b \<longleftrightarrow> a < b"
proof
  assume "(2::rat) powi a < 2 powi b"
  then show "a < b"
    using pow2_mono [of b a] by (cases "a < b") auto
next
  assume "a < b"
  then show "(2::rat) powi a < 2 powi b"
    by (intro power_int_strict_increasing) simp_all
qed

lemma pow2_Suc: "(2::rat) powi (e + 1) = 2 * 2 powi e"
  by (simp add: power_int_add)

text \<open>The binary exponent is the one that the definition of \<open>ilog2\<close> promises.\<close>

lemma ilog2_bounds:
  assumes "q \<noteq> 0"
  shows "2 powi ilog2 q \<le> \<bar>q\<bar>" and "\<bar>q\<bar> < 2 powi (ilog2 q + 1)"
proof -
  obtain n d where nd: "quotient_of \<bar>q\<bar> = (n, d)"
    by (cases "quotient_of \<bar>q\<bar>")
  have d: "0 < d" using quotient_of_denom_pos [OF nd] .
  have q: "\<bar>q\<bar> = of_int n / of_int d" using quotient_of_div [OF nd] .
  have n: "0 < n"
  proof -
    have "0 < \<bar>q\<bar>" using assms by simp
    then have "0 < (of_int n :: rat) / of_int d" using q by simp
    then show ?thesis using d by (simp add: zero_less_divide_iff)
  qed
  define e where "e = bitlen n - bitlen d"
  have bn: "1 \<le> bitlen n" and bd: "1 \<le> bitlen d"
    using n d bitlen_eq_zero_iff [of n] bitlen_eq_zero_iff [of d] bitlen_nonneg [of n]
      bitlen_nonneg [of d] by linarith+
  have n_lo: "(2::rat) powi (bitlen n - 1) \<le> of_int n"
  proof -
    have "(2::int) ^ nat (bitlen n - 1) \<le> n" using bitlen_bounds [OF n] by simp
    then have "(of_int ((2::int) ^ nat (bitlen n - 1)) :: rat) \<le> of_int n"
      by (simp only: of_int_le_iff)
    then show ?thesis using bn by (simp add: power_int_def)
  qed
  have n_hi: "(of_int n :: rat) < 2 powi bitlen n"
  proof -
    have "n < (2::int) ^ nat (bitlen n)" using bitlen_bounds [OF n] by simp
    then have "(of_int n :: rat) < of_int ((2::int) ^ nat (bitlen n))"
      by (simp only: of_int_less_iff)
    then show ?thesis using bn by (simp add: power_int_def)
  qed
  have d_lo: "(2::rat) powi (bitlen d - 1) \<le> of_int d"
  proof -
    have "(2::int) ^ nat (bitlen d - 1) \<le> d" using bitlen_bounds [OF d] by simp
    then have "(of_int ((2::int) ^ nat (bitlen d - 1)) :: rat) \<le> of_int d"
      by (simp only: of_int_le_iff)
    then show ?thesis using bd by (simp add: power_int_def)
  qed
  have d_hi: "(of_int d :: rat) < 2 powi bitlen d"
  proof -
    have "d < (2::int) ^ nat (bitlen d)" using bitlen_bounds [OF d] by simp
    then have "(of_int d :: rat) < of_int ((2::int) ^ nat (bitlen d))"
      by (simp only: of_int_less_iff)
    then show ?thesis using bd by (simp add: power_int_def)
  qed
  have dpos: "(0::rat) < of_int d" using d by simp
  have lo: "2 powi (e - 1) \<le> \<bar>q\<bar>"
  proof -
    have "2 powi (e - 1) * (of_int d :: rat) \<le> 2 powi (e - 1) * 2 powi bitlen d"
      using d_hi by (intro mult_left_mono) simp_all
    also have "\<dots> = 2 powi (bitlen n - 1)"
      by (simp add: e_def flip: pow2_add)
    also have "\<dots> \<le> of_int n" by (rule n_lo)
    finally show ?thesis using dpos by (simp add: q pos_le_divide_eq)
  qed
  have hi: "\<bar>q\<bar> < 2 powi (e + 1)"
  proof -
    have "(of_int n :: rat) < 2 powi bitlen n" by (rule n_hi)
    also have "\<dots> = 2 powi (e + 1) * 2 powi (bitlen d - 1)"
      by (simp add: e_def flip: pow2_add)
    also have "\<dots> \<le> 2 powi (e + 1) * of_int d"
      using d_lo by (intro mult_left_mono) simp_all
    finally show ?thesis using dpos by (simp add: q pos_divide_less_eq)
  qed
  have il: "ilog2 q = (if 2 powi e \<le> \<bar>q\<bar> then e else e - 1)"
    by (simp add: ilog2_def nd e_def Let_def)
  show "2 powi ilog2 q \<le> \<bar>q\<bar>"
    using lo by (simp add: il)
  show "\<bar>q\<bar> < 2 powi (ilog2 q + 1)"
    using hi by (auto simp: il not_le)
qed


lemma ilog2_less_iff:
  assumes "q \<noteq> 0"
  shows "ilog2 q < e \<longleftrightarrow> \<bar>q\<bar> < 2 powi e"
proof
  assume "ilog2 q < e"
  then have "2 powi (ilog2 q + 1) \<le> (2::rat) powi e" by (intro pow2_mono) simp
  then show "\<bar>q\<bar> < 2 powi e" using ilog2_bounds(2) [OF assms] by linarith
next
  assume "\<bar>q\<bar> < 2 powi e"
  then have "2 powi ilog2 q < (2::rat) powi e" using ilog2_bounds(1) [OF assms] by linarith
  then show "ilog2 q < e" by (simp add: pow2_less_iff)
qed

lemma ilog2_minus [simp]: "ilog2 (- q) = ilog2 q"
  by (simp add: ilog2_def)

subsection \<open>Rounding to an integer\<close>

lemma rint_of_int [simp]: "rint (of_int m) = m"
  by (simp add: rint_def)

lemma rint_cases:
  "rint x = \<lfloor>x\<rfloor> \<or> rint x = \<lfloor>x\<rfloor> + 1"
  by (simp add: rint_def Let_def)

lemma rint_err: "\<bar>of_int (rint x) - x\<bar> \<le> 1 / 2"
proof -
  have "of_int \<lfloor>x\<rfloor> \<le> x" "x < of_int \<lfloor>x\<rfloor> + 1" by linarith+
  then show ?thesis
    by (auto simp: rint_def Let_def abs_le_iff)
qed

lemma rint_mono:
  assumes "x \<le> y"
  shows "rint x \<le> rint y"
proof (cases "\<lfloor>x\<rfloor> = \<lfloor>y\<rfloor>")
  case True
  then show ?thesis
    using assms by (auto simp: rint_def Let_def)
next
  case False
  then have "\<lfloor>x\<rfloor> + 1 \<le> \<lfloor>y\<rfloor>"
    using floor_mono [OF assms] by linarith
  moreover have "rint x \<le> \<lfloor>x\<rfloor> + 1" using rint_cases [of x] by linarith
  moreover have "\<lfloor>y\<rfloor> \<le> rint y" using rint_cases [of y] by linarith
  ultimately show ?thesis by linarith
qed

lemma rint_minus: "rint (- x) = - rint x"
proof (cases "x = of_int \<lfloor>x\<rfloor>")
  case True
  then obtain m where "x = of_int m" ..
  then show ?thesis by (simp flip: of_int_minus)
next
  case False
  then have c: "\<lceil>x\<rceil> = \<lfloor>x\<rfloor> + 1"
    by (simp add: ceiling_altdef)
  have f: "\<lfloor>- x\<rfloor> = - \<lfloor>x\<rfloor> - 1"
    using c by (simp add: floor_minus)
  show ?thesis
    unfolding rint_def Let_def f
    by (auto simp: algebra_simps)
qed

lemma rint_nonneg: "0 \<le> x \<Longrightarrow> 0 \<le> rint x"
  using rint_mono [of 0 x] rint_of_int [of 0] by simp

subsection \<open>Rounding to a double\<close>

lemma ulp_exp_minus [simp]: "ulp_exp (- q) = ulp_exp q"
  by (simp add: ulp_exp_def)

lemma rnd_0 [simp]: "rnd 0 = 0"
  by (simp add: rnd_def)

lemma rnd_minus: "rnd (- q) = - rnd q"
  by (simp add: rnd_def rint_minus)

lemma rnd_nonneg: "0 \<le> q \<Longrightarrow> 0 \<le> rnd q"
  by (simp add: rnd_def rint_nonneg)

lemma rnd_nonpos: "q \<le> 0 \<Longrightarrow> rnd q \<le> 0"
  using rnd_nonneg [of "- q"] by (simp add: rnd_minus)

text \<open>
  A multiple of a power of two at or above the unit in the last place bounds the
  rounded value as it bounds the exact one; hence \<open>rnd\<close> fixes every value of the
  format, and every rounded value is one.
\<close>

lemma pow2_int: "0 \<le> e \<Longrightarrow> (2::rat) powi e = of_int (2 ^ nat e)"
  by (simp add: power_int_def)

lemma on_grid:
  assumes "u \<le> e"
  shows "of_int k * 2 powi e / 2 powi u = (of_int (k * 2 ^ nat (e - u)) :: rat)"
proof -
  have "(2::rat) powi e = 2 powi (e - u) * 2 powi u"
    by (simp flip: pow2_add)
  then show ?thesis
    using assms by (simp add: pow2_int)
qed

lemma on_grid_mult:
  assumes "u \<le> e"
  shows "(of_int (k * 2 ^ nat (e - u)) :: rat) * 2 powi u = of_int k * 2 powi e"
proof -
  have "(2::rat) powi e = 2 powi (e - u) * 2 powi u"
    by (simp flip: pow2_add)
  then show ?thesis
    using assms by (simp add: pow2_int)
qed

lemma rnd_le_grid:
  assumes "x \<le> of_int k * 2 powi e" and "ulp_exp x \<le> e"
  shows "rnd x \<le> of_int k * 2 powi e"
proof (cases "x = 0")
  case True
  have "(0::rat) \<le> of_int k * 2 powi e" using assms(1) True by simp
  then show ?thesis using True by simp
next
  case False
  let ?u = "ulp_exp x"
  have "x / 2 powi ?u \<le> of_int k * 2 powi e / 2 powi ?u"
    using assms(1) by (simp add: divide_right_mono)
  then have "rint (x / 2 powi ?u) \<le> k * 2 ^ nat (e - ?u)"
    using rint_mono [of "x / 2 powi ?u" "of_int (k * 2 ^ nat (e - ?u))"]
    by (simp only: on_grid [OF assms(2)] rint_of_int)
  then have "(of_int (rint (x / 2 powi ?u)) :: rat) \<le> of_int (k * 2 ^ nat (e - ?u))"
    by (simp only: of_int_le_iff)
  then have "of_int (rint (x / 2 powi ?u)) * 2 powi ?u
      \<le> (of_int (k * 2 ^ nat (e - ?u)) :: rat) * 2 powi ?u"
    by (intro mult_right_mono) simp_all
  also have "\<dots> = of_int k * 2 powi e"
    by (rule on_grid_mult [OF assms(2)])
  finally show ?thesis using False by (simp add: rnd_def)
qed

lemma rnd_ge_grid:
  assumes "of_int k * 2 powi e \<le> x" and "ulp_exp x \<le> e"
  shows "of_int k * 2 powi e \<le> rnd x"
proof -
  have "rnd (- x) \<le> of_int (- k) * 2 powi e"
    using assms by (intro rnd_le_grid) simp_all
  then show ?thesis by (simp add: rnd_minus)
qed

lemma ulp_exp_le:
  assumes "\<bar>x\<bar> < 2 powi (e + 53)" and "- 1074 \<le> e" and "x \<noteq> 0"
  shows "ulp_exp x \<le> e"
proof -
  have "ilog2 x < e + 53" using assms by (simp add: ilog2_less_iff)
  then show ?thesis using assms(2) by (simp add: ulp_exp_def)
qed

lemma rnd_exact_grid:
  assumes "\<bar>m\<bar> < 2 ^ 53" and "- 1074 \<le> e"
  shows "rnd (of_int m * 2 powi e) = of_int m * 2 powi e"
proof (cases "m = 0")
  case True
  then show ?thesis by simp
next
  case False
  let ?x = "(of_int m :: rat) * 2 powi e"
  have x0: "?x \<noteq> 0" using False by simp
  have "\<bar>?x\<bar> = of_int \<bar>m\<bar> * 2 powi e" by (simp add: abs_mult)
  also have "\<dots> < of_int (2 ^ 53) * 2 powi e"
    using assms(1) by (intro mult_strict_right_mono) (simp_all only: of_int_less_iff pow2_pos)
  also have "\<dots> = 2 powi (e + 53)" by (simp add: pow2_add)
  finally have "\<bar>?x\<bar> < 2 powi (e + 53)" .
  then have u: "ulp_exp ?x \<le> e" using assms(2) x0 by (rule ulp_exp_le)
  have "rnd ?x \<le> ?x" by (rule rnd_le_grid [OF order_refl u])
  moreover have "?x \<le> rnd ?x" by (rule rnd_ge_grid [OF order_refl u])
  ultimately show ?thesis by simp
qed

lemma rnd_exact: "repr x \<Longrightarrow> rnd x = x"
  by (auto simp: repr_def rnd_exact_grid)

lemma ulp_exp_ge: "- 1074 \<le> ulp_exp x"
  by (simp add: ulp_exp_def)

lemma scaled_less:
  assumes "x \<noteq> 0"
  shows "\<bar>x\<bar> / 2 powi ulp_exp x < 2 ^ 53"
proof -
  have "\<bar>x\<bar> < 2 powi (ilog2 x + 1)" by (rule ilog2_bounds(2) [OF assms])
  also have "\<dots> = 2 powi (ilog2 x - 52) * 2 ^ 53"
    by (simp add: power_int_add power_int_diff)
  also have "\<dots> \<le> 2 powi ulp_exp x * 2 ^ 53"
    by (intro mult_right_mono pow2_mono) (simp_all add: ulp_exp_def)
  finally show ?thesis by (simp add: pos_divide_less_eq mult.commute)
qed

lemma rnd_repr: "repr (rnd x)"
proof (cases "x = 0")
  case True
  have "(0::rat) = of_int 0 * 2 powi 0" by simp
  then show ?thesis unfolding repr_def True rnd_0 by (intro exI [of _ 0]) simp
next
  case False
  let ?u = "ulp_exp x"
  let ?m = "rint (x / 2 powi ?u)"
  have r: "rnd x = of_int ?m * 2 powi ?u" using False by (simp add: rnd_def)
  have a: "\<bar>x\<bar> / 2 powi ?u < 2 ^ 53" by (rule scaled_less [OF False])
  have "x / 2 powi ?u \<le> \<bar>x\<bar> / 2 powi ?u"
    by (simp add: divide_right_mono)
  moreover have "(- \<bar>x\<bar>) / 2 powi ?u \<le> x / 2 powi ?u"
    by (intro divide_right_mono) simp_all
  then have "- (\<bar>x\<bar> / 2 powi ?u) \<le> x / 2 powi ?u"
    by (simp only: minus_divide_left)
  ultimately have "x / 2 powi ?u \<le> \<bar>x\<bar> / 2 powi ?u" "- (\<bar>x\<bar> / 2 powi ?u) \<le> x / 2 powi ?u"
    by blast+
  then have b: "x / 2 powi ?u \<le> of_int (2 ^ 53)" "of_int (- (2 ^ 53)) \<le> x / 2 powi ?u"
    using a by simp_all
  have "?m \<le> 2 ^ 53" "- (2 ^ 53) \<le> ?m"
    using rint_mono [OF b(1)] rint_mono [OF b(2)] by (simp_all only: rint_of_int)
  then consider "\<bar>?m\<bar> < 2 ^ 53" | "?m = 2 ^ 53" | "?m = - (2 ^ 53)" by linarith
  then show ?thesis
  proof cases
    case 1
    then show ?thesis unfolding repr_def r using ulp_exp_ge [of x] by blast
  next
    case 2
    have "rnd x = of_int (2 ^ 52) * 2 powi (?u + 1)"
      by (simp add: r 2 pow2_add)
    moreover have "\<bar>(2::int) ^ 52\<bar> < 2 ^ 53" by simp
    moreover have "- 1074 \<le> ?u + 1" using ulp_exp_ge [of x] by simp
    ultimately show ?thesis unfolding repr_def by blast
  next
    case 3
    have "rnd x = of_int (- (2 ^ 52)) * 2 powi (?u + 1)"
      by (simp add: r 3 pow2_add)
    moreover have "\<bar>- ((2::int) ^ 52)\<bar> < 2 ^ 53" by simp
    moreover have "- 1074 \<le> ?u + 1" using ulp_exp_ge [of x] by simp
    ultimately show ?thesis unfolding repr_def by blast
  qed
qed

lemma rnd_idem [simp]: "rnd (rnd x) = rnd x"
  by (rule rnd_exact [OF rnd_repr])

lemma repr_iff: "repr x \<longleftrightarrow> rnd x = x"
  using rnd_exact rnd_repr [of x] by auto

subsection \<open>Monotonicity and the rounding error\<close>

lemma ilog2_mono:
  assumes "x \<noteq> 0" and "\<bar>x\<bar> \<le> \<bar>y\<bar>"
  shows "ilog2 x \<le> ilog2 y"
proof -
  have y: "y \<noteq> 0" using assms by auto
  have "2 powi ilog2 x \<le> \<bar>x\<bar>" by (rule ilog2_bounds(1) [OF assms(1)])
  also have "\<dots> \<le> \<bar>y\<bar>" by (rule assms(2))
  also have "\<dots> < 2 powi (ilog2 y + 1)" by (rule ilog2_bounds(2) [OF y])
  finally show ?thesis by (simp add: pow2_less_iff)
qed

lemma rnd_mono_pos:
  assumes "0 < x" and "x \<le> y"
  shows "rnd x \<le> rnd y"
proof -
  have x0: "x \<noteq> 0" and y0: "y \<noteq> 0" using assms by auto
  have il: "ilog2 x \<le> ilog2 y" using assms by (intro ilog2_mono) auto
  show ?thesis
  proof (cases "ulp_exp x = ulp_exp y")
    case True
    have "rint (x / 2 powi ulp_exp y) \<le> rint (y / 2 powi ulp_exp y)"
      using assms(2) by (intro rint_mono divide_right_mono) simp_all
    then have "(of_int (rint (x / 2 powi ulp_exp y)) :: rat) * 2 powi ulp_exp y
        \<le> of_int (rint (y / 2 powi ulp_exp y)) * 2 powi ulp_exp y"
      by (intro mult_right_mono) simp_all
    then show ?thesis using x0 y0 by (simp add: rnd_def True)
  next
    case False
    then have lt: "ilog2 x < ilog2 y" using il by (auto simp: ulp_exp_def)
    have uy: "ulp_exp y \<le> ilog2 y"
      using lt False il by (auto simp: ulp_exp_def max_def split: if_splits)
    have ux: "ulp_exp x \<le> ilog2 y"
      using lt False il by (auto simp: ulp_exp_def max_def split: if_splits)
    let ?B = "(of_int 1 :: rat) * 2 powi ilog2 y"
    have "x < 2 powi (ilog2 x + 1)" using ilog2_bounds(2) [OF x0] assms(1) by simp
    also have "\<dots> \<le> 2 powi ilog2 y" using lt by (intro pow2_mono) simp
    finally have "x \<le> ?B" by simp
    then have 1: "rnd x \<le> ?B" using ux by (rule rnd_le_grid)
    have "?B \<le> y" using ilog2_bounds(1) [OF y0] assms by simp
    then have 2: "?B \<le> rnd y" using uy by (rule rnd_ge_grid)
    from 1 2 show ?thesis by linarith
  qed
qed

lemma rnd_mono:
  assumes "x \<le> y"
  shows "rnd x \<le> rnd y"
proof -
  consider "0 < x" | "x \<le> 0" "0 \<le> y" | "y < 0" by linarith
  then show ?thesis
  proof cases
    case 1
    then show ?thesis using assms by (rule rnd_mono_pos)
  next
    case 2
    then show ?thesis using rnd_nonpos [of x] rnd_nonneg [of y] by linarith
  next
    case 3
    then have "rnd (- y) \<le> rnd (- x)" using assms by (intro rnd_mono_pos) simp_all
    then show ?thesis by (simp add: rnd_minus)
  qed
qed

lemma rnd_le: "x \<le> z \<Longrightarrow> repr z \<Longrightarrow> rnd x \<le> z"
  using rnd_mono [of x z] by (simp add: rnd_exact)

lemma rnd_ge: "z \<le> x \<Longrightarrow> repr z \<Longrightarrow> z \<le> rnd x"
  using rnd_mono [of z x] by (simp add: rnd_exact)

lemma rnd_err_ulp: "\<bar>rnd x - x\<bar> \<le> 2 powi ulp_exp x / 2"
proof (cases "x = 0")
  case True
  then show ?thesis by simp
next
  case False
  let ?u = "(2::rat) powi ulp_exp x"
  have "\<bar>of_int (rint (x / ?u)) - x / ?u\<bar> * ?u \<le> 1 / 2 * ?u"
    by (intro mult_right_mono rint_err) simp
  moreover have "\<bar>of_int (rint (x / ?u)) - x / ?u\<bar> * ?u = \<bar>of_int (rint (x / ?u)) * ?u - x\<bar>"
  proof -
    have "\<bar>of_int (rint (x / ?u)) - x / ?u\<bar> * ?u = \<bar>(of_int (rint (x / ?u)) - x / ?u) * ?u\<bar>"
      by (simp add: abs_mult)
    also have "(of_int (rint (x / ?u)) - x / ?u) * ?u = of_int (rint (x / ?u)) * ?u - x"
      by (simp add: algebra_simps)
    finally show ?thesis .
  qed
  ultimately show ?thesis using False by (simp add: rnd_def)
qed

lemma rnd_err_abs:
  assumes "\<bar>x\<bar> \<le> 2 powi e" and "- 1022 \<le> e"
  shows "\<bar>rnd x - x\<bar> \<le> 2 powi (e - 53)"
proof (cases "x = 0")
  case True
  then show ?thesis by simp
next
  case False
  have "2 powi ilog2 x \<le> (2::rat) powi e"
    using ilog2_bounds(1) [OF False] assms(1) by linarith
  then have "ilog2 x \<le> e"
    using pow2_less_iff [of e "ilog2 x"] by (simp add: not_less flip: not_le)
  then have "ulp_exp x \<le> e - 52" using assms(2) by (simp add: ulp_exp_def)
  then have "(2::rat) powi ulp_exp x \<le> 2 powi (e - 52)" by (rule pow2_mono)
  also have "\<dots> = 2 * 2 powi (e - 53)"
    using pow2_Suc [of "e - 53"] by simp
  finally show ?thesis using rnd_err_ulp [of x] by linarith
qed

lemma rnd_err_rel:
  assumes "2 powi (- 1022) \<le> \<bar>x\<bar>"
  shows "\<bar>rnd x - x\<bar> \<le> \<bar>x\<bar> / 2 ^ 53"
proof -
  have x0: "x \<noteq> 0"
  proof
    assume "x = 0"
    then have "(2::rat) powi (- 1022) \<le> 0" using assms by simp
    moreover have "0 < (2::rat) powi (- 1022)" by (rule pow2_pos)
    ultimately show False by linarith
  qed
  have "2 powi (- 1022) < (2::rat) powi (ilog2 x + 1)"
    using ilog2_bounds(2) [OF x0] assms by linarith
  then have "- 1022 < ilog2 x + 1" by (simp only: pow2_less_iff)
  then have u: "ulp_exp x = ilog2 x - 52" by (simp add: ulp_exp_def)
  have "(2::rat) powi ulp_exp x = 2 powi ilog2 x / 2 ^ 52"
    by (simp add: u power_int_diff)
  also have "\<dots> \<le> \<bar>x\<bar> / 2 ^ 52"
    by (intro divide_right_mono ilog2_bounds(1) [OF x0]) simp
  finally have "2 powi ulp_exp x / 2 \<le> \<bar>x\<bar> / 2 ^ 53" by simp
  then show ?thesis using rnd_err_ulp [of x] by linarith
qed

lemma rnd_abs_le:
  assumes "\<bar>x\<bar> \<le> 2 powi e" and "- 1074 \<le> e"
  shows "\<bar>rnd x\<bar> \<le> 2 powi e"
proof -
  have r: "repr (2 powi e)"
    unfolding repr_def using assms(2) by (intro exI [of _ 1] exI [of _ e]) simp
  have r': "repr (- (2 powi e))"
    unfolding repr_def using assms(2) by (intro exI [of _ "- 1"] exI [of _ e]) simp
  have "rnd x \<le> 2 powi e" using assms(1) r by (intro rnd_le) simp_all
  moreover have "- (2 powi e) \<le> rnd x" using assms(1) r' by (intro rnd_ge) simp_all
  ultimately show ?thesis by simp
qed

subsection \<open>Tests of the range, for evaluation\<close>

text \<open>
  Comparing with \<open>2^1024\<close> is comparing the binary exponent with 1024, and the bounds of
  \<open>int64_t\<close> are numerals: these forms evaluate fast.
\<close>

lemma finite_iff: "\<bar>r\<bar> < 2 ^ 1024 \<longleftrightarrow> r = 0 \<or> ilog2 r < 1024"
proof (cases "r = 0")
  case True
  then show ?thesis by simp
next
  case False
  have "(2::rat) powi 1024 = 2 ^ 1024" by (simp only: power_int_numeral)
  then show ?thesis using ilog2_less_iff [OF False, of 1024] False by simp
qed

lemma is_double_code [code]:
  "is_double q \<longleftrightarrow> rnd q = q \<and> (q = 0 \<or> ilog2 q < 1024)"
  by (simp only: is_double_def finite_iff)

lemma fl_code [code]:
  "fl q = (let r = rnd q in if r = 0 \<or> ilog2 r < 1024 then Inr r else Inl NonFinite)"
  by (simp only: fl_def finite_iff)

lemma is_int64_code [code]:
  "is_int64 i \<longleftrightarrow> - 9223372036854775808 \<le> i \<and> i \<le> 9223372036854775807"
  by (auto simp: is_int64_def)

subsection \<open>Integer part and remainder\<close>

text \<open>
  The integer part of a double and the remainder are doubles: \<open>std::trunc\<close>, the
  conversion of the integer part to \<open>int64_t\<close> and back, and the subtraction of
  the integer part are exact.
\<close>

lemma itrunc_of_int [simp]: "itrunc (of_int k) = k"
  by (simp add: itrunc_def)

lemma itrunc_bounds:
  "\<bar>(of_int (itrunc x) :: rat)\<bar> \<le> \<bar>x\<bar>" "\<bar>x - of_int (itrunc x)\<bar> \<le> \<bar>x\<bar>"
  "\<bar>x - of_int (itrunc x)\<bar> < 1"
proof -
  have f: "of_int \<lfloor>x\<rfloor> \<le> x" "x < of_int \<lfloor>x\<rfloor> + 1" by linarith+
  have c: "x \<le> of_int \<lceil>x\<rceil>" "of_int \<lceil>x\<rceil> < x + 1" by linarith+
  have f0: "0 \<le> x \<Longrightarrow> (0::rat) \<le> of_int \<lfloor>x\<rfloor>" by simp
  have c0: "x < 0 \<Longrightarrow> (of_int \<lceil>x\<rceil> :: rat) \<le> 0"
    by (simp add: ceiling_le_iff)
  show "\<bar>(of_int (itrunc x) :: rat)\<bar> \<le> \<bar>x\<bar>"
    using f c f0 c0 by (cases "0 \<le> x") (simp_all add: itrunc_def)
  show "\<bar>x - of_int (itrunc x)\<bar> \<le> \<bar>x\<bar>"
    using f c f0 c0 by (cases "0 \<le> x") (simp_all add: itrunc_def)
  show "\<bar>x - of_int (itrunc x)\<bar> < 1"
    using f c f0 c0 by (cases "0 \<le> x") (simp_all add: itrunc_def)
qed

lemma repr_0 [simp]: "repr 0"
  unfolding repr_def by (intro exI [of _ 0]) simp

lemma repr_of_int: "\<bar>k\<bar> < 2 ^ 53 \<Longrightarrow> repr (of_int k)"
  unfolding repr_def by (intro exI [of _ k] exI [of _ 0]) simp

lemma repr_minus: "repr x \<Longrightarrow> repr (- x)"
  unfolding repr_def
proof (elim exE conjE)
  fix m e
  assume "x = of_int m * 2 powi e" "\<bar>m\<bar> < 2 ^ 53" "- 1074 \<le> e"
  then have "- x = of_int (- m) * 2 powi e \<and> \<bar>- m\<bar> < 2 ^ 53 \<and> - 1074 \<le> e" by simp
  then show "\<exists>m e. - x = of_int m * 2 powi e \<and> \<bar>m\<bar> < 2 ^ 53 \<and> - 1074 \<le> e" by blast
qed

lemma repr_parts:
  assumes "repr x"
  shows "repr (of_int (itrunc x))" and "repr (x - of_int (itrunc x))"
proof -
  obtain m e where x: "x = of_int m * 2 powi e" and m: "\<bar>m\<bar> < 2 ^ 53" and e: "- 1074 \<le> e"
    using assms unfolding repr_def by blast
  have "repr (of_int (itrunc x)) \<and> repr (x - of_int (itrunc x))"
  proof (cases "0 \<le> e")
    case True
    then have "x = of_int (m * 2 ^ nat e)" by (simp add: x pow2_int)
    then obtain k :: int where "x = of_int k" ..
    then have "of_int (itrunc x) = x" by (simp only: itrunc_of_int)
    then show ?thesis using assms by simp
  next
    case False
    define p :: int where "p = 2 ^ nat (- e)"
    have p: "1 \<le> p" by (simp add: p_def)
    have pe: "(2::rat) powi e = 1 / of_int p"
      using False by (simp add: p_def power_int_def inverse_eq_divide power_one_over)
    have xm: "x = of_int m / of_int p" by (simp add: x pe)
    have pp: "(0::rat) < of_int p" using p by simp
    let ?t = "itrunc x"
    have "\<bar>x\<bar> \<le> of_int \<bar>m\<bar>"
    proof -
      have "\<bar>x\<bar> = of_int \<bar>m\<bar> / of_int p" using pp by (simp add: xm)
      also have "\<dots> \<le> of_int \<bar>m\<bar> / 1"
        using p by (intro divide_left_mono) simp_all
      finally show ?thesis by simp
    qed
    then have "(of_int \<bar>?t\<bar> :: rat) \<le> of_int \<bar>m\<bar>"
      using itrunc_bounds(1) [of x] by simp
    then have "\<bar>?t\<bar> \<le> \<bar>m\<bar>" by (simp only: of_int_le_iff)
    then have 1: "repr (of_int ?t)" using m by (intro repr_of_int) linarith
    have d: "x - of_int ?t = of_int (m - ?t * p) * 2 powi e"
      using pp by (simp add: xm pe field_simps)
    have "\<bar>x - of_int ?t\<bar> = of_int \<bar>m - ?t * p\<bar> / of_int p"
      using pp by (simp add: d pe)
    moreover have "\<bar>x\<bar> = of_int \<bar>m\<bar> / of_int p" using pp by (simp add: xm)
    ultimately have "(of_int \<bar>m - ?t * p\<bar> :: rat) / of_int p \<le> of_int \<bar>m\<bar> / of_int p"
      using itrunc_bounds(2) [of x] by simp
    then have "(of_int \<bar>m - ?t * p\<bar> :: rat) \<le> of_int \<bar>m\<bar>"
      using pp by (simp add: divide_le_cancel)
    then have "\<bar>m - ?t * p\<bar> \<le> \<bar>m\<bar>" by (simp only: of_int_le_iff)
    then have "\<bar>m - ?t * p\<bar> < 2 ^ 53" using m by linarith
    then have 2: "repr (x - of_int ?t)" unfolding repr_def using d e by blast
    from 1 2 show ?thesis ..
  qed
  then show "repr (of_int (itrunc x))" and "repr (x - of_int (itrunc x))" by blast+
qed

lemma is_double_repr: "is_double x \<Longrightarrow> repr x"
  by (simp add: is_double_def repr_iff)

lemma fl_exact: "repr q \<Longrightarrow> \<bar>q\<bar> < 2 ^ 1024 \<Longrightarrow> fl q = Inr q"
  by (simp add: fl_def rnd_exact)

lemma fl_small:
  assumes "\<bar>q\<bar> \<le> 2 powi e" and "- 1074 \<le> e" and "e < 1024"
  shows "fl q = Inr (rnd q)"
proof -
  have "\<bar>rnd q\<bar> \<le> 2 powi e" using assms(1,2) by (rule rnd_abs_le)
  also have "\<dots> < 2 powi 1024" using assms(3) by (simp only: pow2_less_iff)
  also have "\<dots> = 2 ^ 1024" by (simp only: power_int_numeral)
  finally show ?thesis by (simp add: fl_def)
qed

lemma to_i64_eq: "is_int64 (itrunc x) \<Longrightarrow> to_i64 x = Inr (itrunc x)"
  by (simp add: to_i64_def)

lemma of_i64_itrunc: "repr x \<Longrightarrow> of_i64 (itrunc x) = of_int (itrunc x)"
  by (simp add: of_i64_def rnd_exact repr_parts(1))

lemma small_finite: "\<bar>q\<bar> \<le> 1 \<Longrightarrow> \<bar>q :: rat\<bar> < 2 ^ 1024"
proof -
  assume "\<bar>q\<bar> \<le> 1"
  moreover have "(1::rat) < 2 ^ 1024" by (rule one_less_power) simp_all
  ultimately show ?thesis by linarith
qed

lemma d_sub_itrunc:
  assumes "repr x"
  shows "d_sub x (of_i64 (itrunc x)) = Inr (x - of_int (itrunc x))"
proof -
  have "\<bar>x - of_int (itrunc x)\<bar> \<le> 1" using itrunc_bounds(3) [of x] by simp
  then show ?thesis
    using assms by (simp add: d_sub_def of_i64_itrunc fl_exact repr_parts(2) small_finite)
qed

lemma repr_grid53:
  assumes "q * 2 ^ 53 \<in> \<int>" and "\<bar>q\<bar> < 1"
  shows "repr q"
proof -
  obtain k :: int where k: "q * 2 ^ 53 = of_int k" using assms(1) by (elim Ints_cases)
  have "\<bar>of_int k :: rat\<bar> < 2 ^ 53"
  proof -
    have "\<bar>q * 2 ^ 53\<bar> = \<bar>q\<bar> * 2 ^ 53" by (simp add: abs_mult)
    also have "\<dots> < 1 * 2 ^ 53" using assms(2) by (intro mult_strict_right_mono) simp_all
    finally show ?thesis unfolding k by simp
  qed
  then have "(of_int \<bar>k\<bar> :: rat) < of_int (2 ^ 53)" by simp
  then have kb: "\<bar>k\<bar> < 2 ^ 53" by (simp only: of_int_less_iff)
  have "q = of_int k * 2 powi (- 53)"
    using k by (simp add: power_int_minus field_simps)
  then show ?thesis unfolding repr_def using kb by (intro exI [of _ k] exI [of _ "- 53"]) simp
qed

subsection \<open>Normalization\<close>

text \<open>
  \<open>set_from\<close> computes the floor of the fractional argument and its remainder; the
  remainder is exact unless the branch for a negative remainder adds 1 to it.
\<close>

lemma itrunc_floor_cases:
  "itrunc x = \<lfloor>x\<rfloor> \<and> 0 \<le> x - of_int (itrunc x)
   \<or> itrunc x = \<lfloor>x\<rfloor> + 1 \<and> x - of_int (itrunc x) < 0"
proof (cases "0 \<le> x")
  case True
  then have "itrunc x = \<lfloor>x\<rfloor>" by (simp add: itrunc_def)
  moreover have "of_int \<lfloor>x\<rfloor> \<le> x" by simp
  ultimately show ?thesis by simp
next
  case False
  then have c: "itrunc x = \<lceil>x\<rceil>" by (simp add: itrunc_def)
  show ?thesis
  proof (cases "x = of_int \<lfloor>x\<rfloor>")
    case True
    then have "\<lceil>x\<rceil> = \<lfloor>x\<rfloor>" by (simp add: ceiling_altdef)
    then show ?thesis using c True by simp
  next
    case False
    then have "\<lceil>x\<rceil> = \<lfloor>x\<rfloor> + 1" by (simp add: ceiling_altdef)
    moreover have "x < of_int \<lfloor>x\<rfloor> + 1" by linarith
    ultimately show ?thesis using c by simp
  qed
qed

lemma set_from_general:
  assumes "repr f" and "is_int64 (itrunc f)" and "is_int64 (s + itrunc f)"
    and "is_int64 (s + \<lfloor>f\<rfloor>)"
  shows "set_from this s f
    = Inr (this\<lparr>full_secs := s + \<lfloor>f\<rfloor>, frac_secs := rnd (f - of_int \<lfloor>f\<rfloor>)\<rparr>)"
proof -
  let ?fr = "f - of_int (itrunc f)"
  have step: "set_from this s f =
      (if ?fr < 0
       then bnd (i64_sub (s + itrunc f) 1) (\<lambda>fs'.
            bnd (d_add ?fr 1) (\<lambda>fr'. Inr (this\<lparr>full_secs := fs', frac_secs := fr'\<rparr>)))
       else Inr (this\<lparr>full_secs := s + itrunc f, frac_secs := ?fr\<rparr>))"
    using assms(2,3)
    by (simp add: set_from_def to_i64_eq i64_add_def i64_def d_sub_itrunc [OF assms(1)])
  from itrunc_floor_cases [of f] show ?thesis
  proof (elim disjE conjE)
    assume a: "itrunc f = \<lfloor>f\<rfloor>" "0 \<le> ?fr"
    have "rnd ?fr = ?fr" using assms(1) by (intro rnd_exact repr_parts(2))
    moreover have "\<not> ?fr < 0" using a(2) by simp
    ultimately show ?thesis unfolding step a(1) by (simp only: if_False)
  next
    assume a: "itrunc f = \<lfloor>f\<rfloor> + 1" "?fr < 0"
    have e: "s + itrunc f - 1 = s + \<lfloor>f\<rfloor>" "?fr + 1 = f - of_int \<lfloor>f\<rfloor>"
      by (simp_all add: a(1))
    have 1: "i64_sub (s + itrunc f) 1 = Inr (s + \<lfloor>f\<rfloor>)"
      by (simp only: i64_sub_def e) (simp add: i64_def assms(4))
    have "\<bar>?fr + 1\<bar> \<le> 2 powi 0" using a(2) itrunc_bounds(3) [of f] by simp
    then have "fl (?fr + 1) = Inr (rnd (?fr + 1))" by (rule fl_small) simp_all
    then have 2: "d_add ?fr 1 = Inr (rnd (f - of_int \<lfloor>f\<rfloor>))"
      by (simp only: d_add_def e)
    show ?thesis using a(2) by (simp add: step 1 2)
  qed
qed

lemma set_from_value:
  assumes "is_double f" and "is_int64 (itrunc f)" and "is_int64 (s + itrunc f)"
    and "is_int64 (s + \<lfloor>f\<rfloor>)" and "0 \<le> f \<or> f * 2 ^ 53 \<in> \<int>"
  shows "set_from this s f = Inr (this\<lparr>full_secs := s + \<lfloor>f\<rfloor>, frac_secs := f - of_int \<lfloor>f\<rfloor>\<rparr>)"
proof -
  have r: "repr f" using assms(1) by (rule is_double_repr)
  have "repr (f - of_int \<lfloor>f\<rfloor>)"
    using assms(5)
  proof
    assume "0 \<le> f"
    then have "itrunc f = \<lfloor>f\<rfloor>" by (simp add: itrunc_def)
    then show ?thesis using repr_parts(2) [OF r] by simp
  next
    assume g: "f * 2 ^ 53 \<in> \<int>"
    have "(f - of_int \<lfloor>f\<rfloor>) * 2 ^ 53 = f * 2 ^ 53 - of_int (\<lfloor>f\<rfloor> * 2 ^ 53)"
      by (simp add: algebra_simps)
    then have "(f - of_int \<lfloor>f\<rfloor>) * 2 ^ 53 \<in> \<int>" using g by (simp only: Ints_diff Ints_of_int)
    moreover have "\<bar>f - of_int \<lfloor>f\<rfloor>\<bar> < 1" by linarith
    ultimately show ?thesis by (rule repr_grid53)
  qed
  then have "rnd (f - of_int \<lfloor>f\<rfloor>) = f - of_int \<lfloor>f\<rfloor>" by (rule rnd_exact)
  then show ?thesis using set_from_general [OF r assms(2,3,4), of this] by simp
qed

subsection \<open>Rounding to the nearest integer by truncation\<close>

text \<open>
  \<open>fast_llround\<close> truncates \<open>x + 0.5\<close>. For a double \<open>x\<close> from 0 up to \<open>2^51\<close> this is
  \<open>x\<close> rounded half-up, except at the double next below one half, where the sum
  rounds up to 1.
\<close>

lemma repr_grid: "\<bar>m\<bar> < 2 ^ 53 \<Longrightarrow> - 1074 \<le> e \<Longrightarrow> repr (of_int m * 2 powi e)"
  unfolding repr_def by blast

lemma repr_on_grid:
  assumes "repr x" and "2 powi k \<le> \<bar>x\<bar>"
  shows "\<exists>j. x = of_int j * 2 powi (k - 52)"
proof -
  obtain m e where x: "x = of_int m * 2 powi e" and m: "\<bar>m\<bar> < 2 ^ 53"
    using assms(1) unfolding repr_def by blast
  have "\<bar>x\<bar> = of_int \<bar>m\<bar> * 2 powi e" by (simp add: x abs_mult)
  also have "\<dots> < of_int (2 ^ 53) * 2 powi e"
    using m by (intro mult_strict_right_mono) (simp_all only: of_int_less_iff pow2_pos)
  also have "\<dots> = 2 powi (e + 53)" by (simp add: pow2_add)
  finally have "2 powi k < (2::rat) powi (e + 53)" using assms(2) by linarith
  then have "k - 52 \<le> e" by (simp add: pow2_less_iff)
  then have "x = of_int (m * 2 ^ nat (e - (k - 52))) * 2 powi (k - 52)"
    unfolding x by (rule on_grid_mult [symmetric])
  then show ?thesis ..
qed

lemma repr_below_half:
  assumes "repr x" and "x < 1 / 2"
  shows "x \<le> 1 / 2 - 1 / 2 ^ 54"
proof (cases "x < 1 / 4")
  case True
  then show ?thesis by simp
next
  case False
  then have "2 powi (- 2) \<le> \<bar>x\<bar>" by simp
  then obtain j where j: "x = of_int j * 2 powi (- 2 - 52)"
    using repr_on_grid [OF assms(1)] by blast
  then have xj: "x = of_int j / 2 ^ 54" by (simp add: power_int_minus field_simps)
  then have "(of_int j :: rat) < of_int (2 ^ 53)" using assms(2) by (simp add: field_simps)
  then have "j < 2 ^ 53" by (simp only: of_int_less_iff)
  then have "j \<le> 2 ^ 53 - 1" by simp
  then have "(of_int j :: rat) \<le> of_int (2 ^ 53 - 1)" by (simp only: of_int_le_iff)
  then show ?thesis by (simp add: xj field_simps)
qed

lemma repr_below_pred_half:
  assumes "repr x" and "x < 1 / 2 - 1 / 2 ^ 54"
  shows "x \<le> 1 / 2 - 1 / 2 ^ 53"
proof (cases "x < 1 / 4")
  case True
  then show ?thesis by simp
next
  case False
  then have "2 powi (- 2) \<le> \<bar>x\<bar>" by simp
  then obtain j where j: "x = of_int j * 2 powi (- 2 - 52)"
    using repr_on_grid [OF assms(1)] by blast
  then have xj: "x = of_int j / 2 ^ 54" by (simp add: power_int_minus field_simps)
  then have "(of_int j :: rat) < of_int (2 ^ 53 - 1)" using assms(2) by (simp add: field_simps)
  then have "j < 2 ^ 53 - 1" by (simp only: of_int_less_iff)
  then have "j \<le> 2 ^ 53 - 2" by simp
  then have "(of_int j :: rat) \<le> of_int (2 ^ 53 - 2)" by (simp only: of_int_le_iff)
  then show ?thesis by (simp add: xj field_simps)
qed

lemma repr_half_steps:
  assumes "0 \<le> k" and "k < 2 ^ 53"
  shows "repr (of_int k / 2)"
proof -
  have "(of_int k :: rat) / 2 = of_int k * 2 powi (- 1)" by (simp add: power_int_minus)
  moreover have "repr (of_int k * 2 powi (- 1))" using assms by (intro repr_grid) simp_all
  ultimately show ?thesis by simp
qed

lemma round_up_below:
  assumes "repr x" and "0 \<le> x" and "x < 2 ^ 51" and "x \<noteq> 1 / 2 - 1 / 2 ^ 54"
  shows "rnd (x + 1 / 2) < of_int \<lfloor>x + 1 / 2\<rfloor> + 1"
proof (cases "x < 1 / 2")
  case True
  then have "x \<le> 1 / 2 - 1 / 2 ^ 54" using assms(1) by (intro repr_below_half)
  then have "x < 1 / 2 - 1 / 2 ^ 54" using assms(4) by simp
  then have "x \<le> 1 / 2 - 1 / 2 ^ 53" using assms(1) by (intro repr_below_pred_half)
  then have le: "x + 1 / 2 \<le> of_int (2 ^ 53 - 1) * 2 powi (- 53)"
    by (simp add: power_int_minus field_simps)
  have "repr (of_int (2 ^ 53 - 1) * 2 powi (- 53))"
    by (rule repr_grid) simp_all
  then have "rnd (x + 1 / 2) \<le> of_int (2 ^ 53 - 1) * 2 powi (- 53)"
    using le by (intro rnd_le)
  also have "\<dots> < 1" by (simp add: power_int_minus field_simps)
  finally have "rnd (x + 1 / 2) < 1" .
  moreover have "\<lfloor>x + 1 / 2\<rfloor> = 0" using True assms(2) by (simp add: floor_eq_iff)
  ultimately show ?thesis by simp
next
  case False
  then have x0: "x \<noteq> 0" and xpos: "0 < x" by auto
  define k where "k = ilog2 x"
  have lo: "2 powi k \<le> x" and hi: "x < 2 powi (k + 1)"
    using ilog2_bounds [OF x0] xpos by (simp_all add: k_def)
  have "2 powi (- 1) < (2::rat) powi (k + 1)" using False hi by (simp add: power_int_minus)
  then have "- 1 < k + 1" by (simp only: pow2_less_iff)
  then have k1: "- 1 \<le> k" by simp
  have "2 powi k < (2::rat) powi 51" using lo assms(3) by simp
  then have "k < 51" by (simp only: pow2_less_iff)
  then have k2: "k \<le> 50" by simp
  obtain j where j: "x = of_int j * 2 powi (k - 52)"
    using repr_on_grid [OF assms(1), of k] lo xpos by auto
  have half: "(1::rat) / 2 = of_int (2 ^ nat (51 - k)) * 2 powi (k - 52)"
  proof -
    have "(of_int (1 * 2 ^ nat (- 1 - (k - 52))) :: rat) * 2 powi (k - 52) = of_int 1 * 2 powi (- 1)"
      by (rule on_grid_mult) (use k2 in simp)
    moreover have "- 1 - (k - 52) = 51 - k" by simp
    ultimately show ?thesis by (simp add: power_int_minus)
  qed
  let ?y = "x + 1 / 2"
  have y: "?y = of_int (j + 2 ^ nat (51 - k)) * 2 powi (k - 52)"
    using half by (simp add: j algebra_simps)
  let ?n = "\<lfloor>?y\<rfloor>"
  show ?thesis
  proof (cases "?y < 2 powi (k + 1)")
    case True
    have jpos: "0 < j"
    proof -
      have "0 < of_int j * (2::rat) powi (k - 52)" using xpos j by simp
      then have "(0::rat) < of_int j"
        using pow2_pos [of "k - 52"] by (simp only: zero_less_mult_pos2)
      then show ?thesis by simp
    qed
    have "of_int (j + 2 ^ nat (51 - k)) * 2 powi (k - 52) < (2::rat) powi (k + 1)"
      using True y by simp
    also have "\<dots> = of_int (2 ^ 53) * 2 powi (k - 52)"
      using pow2_add [of 53 "k - 52"] by (simp add: add.commute)
    finally have "(of_int (j + 2 ^ nat (51 - k)) :: rat) < of_int (2 ^ 53)"
      by (simp only: mult_less_cancel_right_pos pow2_pos)
    then have "j + 2 ^ nat (51 - k) < 2 ^ 53" by (simp only: of_int_less_iff)
    then have "\<bar>j + 2 ^ nat (51 - k)\<bar> < 2 ^ 53" using jpos by simp
    then have "repr ?y" unfolding y using k1 by (intro repr_grid) simp_all
    then have "rnd ?y = ?y" by (rule rnd_exact)
    then show ?thesis by (simp only:) linarith
  next
    case False
    then have ge: "2 powi (k + 1) \<le> ?y" by simp
    have p: "(2::rat) powi (k + 1) = of_int (2 ^ nat (k + 1))"
      using k1 by (intro pow2_int) simp
    have n: "?n = 2 ^ nat (k + 1)"
      using ge hi unfolding p by (intro floor_unique) linarith+
    have "repr (of_int (2 * 2 ^ nat (k + 1) + 1) / 2)"
    proof (rule repr_half_steps)
      have "(2::int) ^ nat (k + 1) \<le> 2 ^ 51" using k2 by (intro power_increasing) simp_all
      then show "2 * 2 ^ nat (k + 1) + 1 < (2::int) ^ 53" by simp
    qed simp
    moreover have "?y \<le> of_int (2 * 2 ^ nat (k + 1) + 1) / 2" using hi unfolding p by simp
    ultimately have "rnd ?y \<le> of_int (2 * 2 ^ nat (k + 1) + 1) / 2" by (intro rnd_le)
    then show ?thesis unfolding n by simp
  qed
qed

lemma fast_llround_half_up:
  assumes "repr x" and "0 \<le> x" and "x < 2 ^ 51" and "x \<noteq> 1 / 2 - 1 / 2 ^ 54"
  shows "fast_llround x = Inr \<lfloor>x + 1 / 2\<rfloor>"
proof -
  let ?y = "x + 1 / 2"
  let ?n = "\<lfloor>?y\<rfloor>"
  have n0: "0 \<le> ?n" using assms(2) by simp
  have "?y < 2 ^ 51 + 1" using assms(3) by simp
  then have "?n < 2 ^ 51 + 1" by (simp add: floor_less_iff)
  then have nb: "?n < 2 ^ 52" by simp
  have "repr (of_int ?n)" using n0 nb by (intro repr_of_int) simp
  moreover have "of_int ?n \<le> ?y" by simp
  ultimately have lo: "of_int ?n \<le> rnd ?y" by (intro rnd_ge)
  have hi: "rnd ?y < of_int ?n + 1" using assms by (rule round_up_below)
  have fl: "\<lfloor>rnd ?y\<rfloor> = ?n" using lo hi by (intro floor_unique)
  have "0 \<le> rnd ?y" using assms(2) by (intro rnd_nonneg) simp
  then have it: "itrunc (rnd ?y) = ?n" by (simp add: itrunc_def fl)
  have "\<bar>?y\<bar> \<le> 2 powi 52" using assms(2,3) by simp
  then have "fl ?y = Inr (rnd ?y)" by (rule fl_small) simp_all
  moreover have "is_int64 ?n" using n0 nb by (simp add: is_int64_def)
  ultimately show ?thesis
    by (simp add: fast_llround_def d_add_def to_i64_def it)
qed

subsection \<open>The rounded remainder of the normalization\<close>








section \<open>Error analysis of the tick conversions\<close>

text \<open>
  With \<open>r = rate_i + rate_f\<close> and \<open>k = secs_full * rate_i + ticks_error\<close>, the exact value
  of \<open>secs_full * r + ticks_frac\<close> is \<open>k\<close>. For a rate up to \<open>2^47\<close> and fewer than
  \<open>2^46\<close> whole seconds each rounded operation of \<open>from_ticks\<close> and \<open>to_ticks\<close> moves
  the tick count by at most \<open>2^-5\<close>, and the rounding errors add up to less than a
  quarter of a tick, so that \<open>fast_llround\<close> recovers the integer.
\<close>

lemma fast_llround_near:
  assumes "0 \<le> n" and "n < 2 ^ 50" and "\<bar>x - of_int n\<bar> \<le> 1 / 4"
  shows "fast_llround x = Inr n"
proof -
  let ?y = "x + 1 / 2"
  have lo: "of_int (4 * n + 1) * 2 powi (- 2) \<le> ?y" and hi: "?y \<le> of_int (4 * n + 3) * 2 powi (- 2)"
    using assms(3) unfolding abs_le_iff by (simp_all add: power_int_minus field_simps)
  have r1: "repr (of_int (4 * n + 1) * 2 powi (- 2))"
    using assms(1,2) by (intro repr_grid) simp_all
  have r3: "repr (of_int (4 * n + 3) * 2 powi (- 2))"
    using assms(1,2) by (intro repr_grid) simp_all
  have "of_int (4 * n + 1) * 2 powi (- 2) \<le> rnd ?y" by (rule rnd_ge [OF lo r1])
  moreover have "rnd ?y \<le> of_int (4 * n + 3) * 2 powi (- 2)" by (rule rnd_le [OF hi r3])
  ultimately have b: "of_int n \<le> rnd ?y" "rnd ?y < of_int n + 1"
    by (simp_all add: power_int_minus field_simps)
  then have "\<lfloor>rnd ?y\<rfloor> = n" by (intro floor_unique)
  moreover have "(0::rat) \<le> of_int n" using assms(1) by simp
  then have "0 \<le> rnd ?y" using b(1) by linarith
  ultimately have it: "itrunc (rnd ?y) = n" by (simp add: itrunc_def)
  have "(of_int n :: rat) < of_int (2 ^ 50)" using assms(2) by (simp only: of_int_less_iff)
  then have "(of_int n :: rat) < 2 ^ 50" by simp
  moreover have "(0::rat) \<le> of_int n" using assms(1) by simp
  ultimately have "\<bar>?y\<bar> \<le> 2 powi 51" using assms(3) unfolding abs_le_iff by simp
  then have "fl ?y = Inr (rnd ?y)" by (rule fl_small) simp_all
  moreover have "is_int64 n" using assms(1,2) by (simp add: is_int64_def)
  ultimately show ?thesis
    by (simp add: fast_llround_def d_add_def to_i64_def it)
qed

lemma of_i64_exact: "\<bar>n\<bar> < 2 ^ 53 \<Longrightarrow> of_i64 n = of_int n"
  by (simp add: of_i64_def rnd_exact repr_of_int)

lemma rate_split:
  assumes "is_double r" and "1 \<le> r" and "r \<le> 2 ^ 47"
  shows "to_i64 r = Inr \<lfloor>r\<rfloor>" and "d_sub r (of_i64 \<lfloor>r\<rfloor>) = Inr (r - of_int \<lfloor>r\<rfloor>)"
    and "1 \<le> \<lfloor>r\<rfloor>" and "\<lfloor>r\<rfloor> \<le> 2 ^ 47"
proof -
  have it: "itrunc r = \<lfloor>r\<rfloor>" using assms(2) by (simp add: itrunc_def)
  show lo: "1 \<le> \<lfloor>r\<rfloor>" using assms(2) by (simp add: le_floor_iff)
  have "of_int \<lfloor>r\<rfloor> \<le> r" by simp
  then have "(of_int \<lfloor>r\<rfloor> :: rat) \<le> of_int (2 ^ 47)" using assms(3) by simp
  then show hi: "\<lfloor>r\<rfloor> \<le> 2 ^ 47" by (simp only: of_int_le_iff)
  have "is_int64 \<lfloor>r\<rfloor>" using lo hi by (simp add: is_int64_def)
  then show "to_i64 r = Inr \<lfloor>r\<rfloor>" by (simp add: to_i64_def it)
  show "d_sub r (of_i64 \<lfloor>r\<rfloor>) = Inr (r - of_int \<lfloor>r\<rfloor>)"
    using d_sub_itrunc [OF is_double_repr [OF assms(1)]] by (simp add: it)
qed

lemma to_ticks_near:
  assumes rd: "is_double r" and r1: "1 \<le> r" and r2: "r \<le> 2 ^ 47"
    and w0: "0 \<le> w" and w1: "w \<le> 2 ^ 46" and f0: "0 \<le> f" and f1: "f \<le> 1"
    and k1: "k < 2 ^ 63"
    and near: "\<bar>r * (of_int w + f) - of_int k\<bar> \<le> 1 / 16"
  shows "to_ticks \<lparr>full_secs = w, frac_secs = f\<rparr> r = Inr k"
proof -
  define ri where "ri = \<lfloor>r\<rfloor>"
  define rf where "rf = r - of_int ri"
  define n where "n = k - w * ri"
  note rs = rate_split [OF rd r1 r2, folded ri_def]
  have rf0: "0 \<le> rf" and rf1: "rf < 1" unfolding rf_def ri_def by linarith+
  have "(of_int w :: rat) \<le> of_int (2 ^ 46)" using w1 by (simp only: of_int_le_iff)
  then have wr: "(0::rat) \<le> of_int w" "(of_int w :: rat) \<le> 2 ^ 46"
    using w0 by simp_all
  have ident: "of_int w * rf + f * r = of_int n + (r * (of_int w + f) - of_int k)"
    by (simp add: rf_def n_def algebra_simps)
  \<comment> \<open>the three rounded operations\<close>
  define e' where "e' = rnd (of_int w * rf)"
  define f' where "f' = rnd (f * r)"
  define s where "s = rnd (e' + f')"
  have b1: "\<bar>of_int w * rf\<bar> \<le> 2 powi 46"
  proof -
    have "of_int w * rf \<le> 2 ^ 46 * 1" using wr rf0 rf1 by (intro mult_mono) simp_all
    moreover have "0 \<le> of_int w * rf" using wr rf0 by simp
    ultimately show ?thesis by simp
  qed
  have b2: "\<bar>f * r\<bar> \<le> 2 powi 47"
  proof -
    have "f * r \<le> 1 * 2 ^ 47" using f0 f1 r1 r2 by (intro mult_mono) simp_all
    moreover have "0 \<le> f * r" using f0 r1 by simp
    ultimately show ?thesis by simp
  qed
  have a1: "\<bar>e'\<bar> \<le> 2 powi 46" unfolding e'_def using b1 by (rule rnd_abs_le) simp
  have a2: "\<bar>f'\<bar> \<le> 2 powi 47" unfolding f'_def using b2 by (rule rnd_abs_le) simp
  have b3: "\<bar>e' + f'\<bar> \<le> 2 powi 48" using a1 a2 by simp
  have e1: "\<bar>e' - of_int w * rf\<bar> \<le> 2 powi (46 - 53)"
    unfolding e'_def using b1 by (rule rnd_err_abs) simp
  have e2: "\<bar>f' - f * r\<bar> \<le> 2 powi (47 - 53)"
    unfolding f'_def using b2 by (rule rnd_err_abs) simp
  have e3: "\<bar>s - (e' + f')\<bar> \<le> 2 powi (48 - 53)"
    unfolding s_def using b3 by (rule rnd_err_abs) simp
  have sn: "\<bar>s - of_int n\<bar> \<le> 1 / 4"
  proof -
    have "s - of_int n = (s - (e' + f')) + (e' - of_int w * rf) + (f' - f * r)
        + (r * (of_int w + f) - of_int k)"
      using ident by simp
    then have "\<bar>s - of_int n\<bar> \<le> 2 powi (48 - 53) + 2 powi (46 - 53) + 2 powi (47 - 53) + 1 / 16"
      using e1 e2 e3 near by linarith
    also have "\<dots> \<le> 1 / 4" by (simp add: power_int_minus)
    finally show ?thesis .
  qed
  have n0: "0 \<le> n"
  proof -
    have "0 \<le> of_int w * rf + f * r" using wr rf0 f0 r1 by simp
    then have "- (1 / 16) \<le> (of_int n :: rat)" using ident near by linarith
    then have "(of_int (- 1) :: rat) < of_int n" by simp
    then have "- 1 < n" by (simp only: of_int_less_iff)
    then show ?thesis by simp
  qed
  have n1: "n < 2 ^ 50"
  proof -
    have "(of_int n :: rat) \<le> of_int w * rf + f * r + 1 / 16" using ident near by linarith
    also have "\<dots> \<le> 2 ^ 46 + 2 ^ 47 + 1 / 16" using b1 b2 by simp
    also have "\<dots> < of_int (2 ^ 50)" by simp
    finally show ?thesis by (simp only: of_int_less_iff)
  qed
  have wri: "0 \<le> w * ri" "w * ri \<le> k"
    using w0 rs(3) n0 by (simp_all add: n_def)
  have c1: "i64_mul w ri = Inr (w * ri)"
    using wri k1 by (simp add: i64_mul_def i64_def is_int64_def)
  have c2: "d_mul (of_i64 w) rf = Inr e'"
  proof -
    have "of_i64 w = of_int w" using w0 w1 by (intro of_i64_exact) simp
    moreover have "fl (of_int w * rf) = Inr (rnd (of_int w * rf))" using b1 by (rule fl_small) simp_all
    ultimately show ?thesis by (simp add: d_mul_def e'_def)
  qed
  have c3: "d_mul f r = Inr f'"
    unfolding d_mul_def f'_def using b2 by (rule fl_small) simp_all
  have c4: "d_add e' f' = Inr s"
    unfolding d_add_def s_def using b3 by (rule fl_small) simp_all
  have c5: "fast_llround s = Inr n" using n0 n1 sn by (rule fast_llround_near)
  have c6: "i64_add (w * ri) n = Inr k"
    using k1 wri by (simp add: i64_add_def i64_def is_int64_def n_def)
  show ?thesis
    unfolding to_ticks_def get_full_secs_def get_frac_secs_def
    by (simp add: rs(1,2) c1 c2 c3 c4 c5 c6 flip: rf_def)
qed

lemma rnd_err_scaled:
  assumes "1 \<le> r" and "r \<le> 2 ^ 47" and "\<bar>t\<bar> \<le> 2 ^ 47"
  shows "\<bar>r * rnd (t / r) - t\<bar> \<le> 2 powi (- 6)"
proof -
  let ?g = "t / r"
  have rpos: "0 < r" using assms(1) by simp
  have eq: "r * rnd ?g - t = r * (rnd ?g - ?g)" using rpos by (simp add: algebra_simps)
  have "r * \<bar>rnd ?g - ?g\<bar> \<le> 2 powi (- 6)"
  proof (cases "2 powi (- 1022) \<le> \<bar>?g\<bar>")
    case True
    then have "\<bar>rnd ?g - ?g\<bar> \<le> \<bar>?g\<bar> / 2 ^ 53" by (rule rnd_err_rel)
    then have "r * \<bar>rnd ?g - ?g\<bar> \<le> r * (\<bar>?g\<bar> / 2 ^ 53)"
      using rpos by (intro mult_left_mono) simp_all
    also have "\<dots> = \<bar>t\<bar> / 2 ^ 53" using rpos by (simp add: abs_divide)
    also have "\<dots> \<le> 2 ^ 47 / 2 ^ 53" using assms(3) by (intro divide_right_mono) simp_all
    also have "\<dots> = 2 powi (- 6)" by (simp add: power_int_minus)
    finally show ?thesis .
  next
    case False
    then have "\<bar>?g\<bar> \<le> 2 powi (- 1022)" by simp
    then have "\<bar>rnd ?g - ?g\<bar> \<le> 2 powi (- 1022 - 53)" by (rule rnd_err_abs) simp
    then have "r * \<bar>rnd ?g - ?g\<bar> \<le> 2 ^ 47 * 2 powi (- 1022 - 53)"
      using assms(1,2) by (intro mult_mono) simp_all
    also have "\<dots> = 2 powi 47 * 2 powi (- 1022 - 53)" by simp
    also have "\<dots> = 2 powi (47 + (- 1022 - 53))" by (simp only: pow2_add)
    also have "\<dots> \<le> 2 powi (- 6)" by (rule pow2_mono) simp
    finally show ?thesis .
  qed
  then show ?thesis unfolding eq using rpos by (simp add: abs_mult)
qed

lemma from_ticks_near:
  assumes rd: "is_double r" and r1: "1 \<le> r" and r2: "r \<le> 2 ^ 47"
    and k0: "0 \<le> k" and k1: "k < 2 ^ 63" and sfb: "k div \<lfloor>r\<rfloor> < 2 ^ 46"
  shows "\<exists>w f. from_ticks k r = Inr \<lparr>full_secs = w, frac_secs = f\<rparr>
    \<and> 0 \<le> w \<and> w \<le> 2 ^ 46 \<and> 0 \<le> f \<and> f \<le> 1
    \<and> \<bar>r * (of_int w + f) - of_int k\<bar> \<le> 1 / 16"
proof -
  define ri where "ri = \<lfloor>r\<rfloor>"
  define rf where "rf = r - of_int ri"
  define sf where "sf = k div ri"
  define te where "te = k mod ri"
  define q where "q = rnd (of_int sf * rf)"
  define tf where "tf = rnd (of_int te - q)"
  define fs where "fs = rnd (tf / r)"
  define w where "w = sf + \<lfloor>fs\<rfloor>"
  define f where "f = rnd (fs - of_int \<lfloor>fs\<rfloor>)"
  note rs = rate_split [OF rd r1 r2, folded ri_def]
  have rpos: "0 < r" using r1 by simp
  have rf0: "0 \<le> rf" and rf1: "rf < 1" unfolding rf_def ri_def by linarith+
  have ri_r: "of_int ri \<le> r" unfolding ri_def by simp
  \<comment> \<open>the integer steps\<close>
  have sf0: "0 \<le> sf" using k0 rs(3) by (simp add: sf_def pos_imp_zdiv_nonneg_iff)
  have sf1: "sf < 2 ^ 46" using sfb by (simp add: sf_def ri_def)
  have te0: "0 \<le> te" and te1: "te < ri" using rs(3) by (simp_all add: te_def)
  have ksplit: "k = sf * ri + te" by (simp add: sf_def te_def)
  have p0: "0 \<le> sf * ri" using sf0 rs(3) by simp
  have p1: "sf * ri \<le> k" using ksplit te0 by simp
  have "(of_int sf :: rat) < of_int (2 ^ 46)" using sf1 by (simp only: of_int_less_iff)
  then have sfr: "(0::rat) \<le> of_int sf" "(of_int sf :: rat) \<le> 2 ^ 46" using sf0 by simp_all
  have "(of_int te :: rat) < of_int ri" using te1 by (simp only: of_int_less_iff)
  then have ter: "(0::rat) \<le> of_int te" "(of_int te :: rat) < r" "(of_int te :: rat) \<le> 2 ^ 47"
    using te0 ri_r r2 by simp_all
  have i1: "i64_div k ri = Inr sf"
  proof -
    have "k sdiv ri = sf" using k0 rs(3) by (simp add: signed_divide_int_def sf_def sgn_if)
    moreover have "is_int64 sf" using sf0 sf1 by (simp add: is_int64_def)
    ultimately show ?thesis using rs(3) by (simp add: i64_div_def i64_def)
  qed
  have i2: "i64_mul sf ri = Inr (sf * ri)"
    using p0 p1 k1 by (simp add: i64_mul_def i64_def is_int64_def)
  have i3: "i64_sub k (sf * ri) = Inr te"
    using te0 te1 rs(4) ksplit by (simp add: i64_sub_def i64_def is_int64_def)
  \<comment> \<open>the rounded steps and their bounds\<close>
  have rsf: "repr (of_int sf)" using sf0 sf1 by (intro repr_of_int) simp
  have rte: "repr (of_int te)" using te0 te1 rs(4) by (intro repr_of_int) simp
  have bq: "\<bar>of_int sf * rf\<bar> \<le> 2 powi 46"
  proof -
    have "of_int sf * rf \<le> 2 ^ 46 * 1" using sfr rf0 rf1 by (intro mult_mono) simp_all
    moreover have "0 \<le> of_int sf * rf" using sfr rf0 by simp
    ultimately show ?thesis by simp
  qed
  have q0: "0 \<le> q" unfolding q_def using sfr rf0 by (intro rnd_nonneg) simp
  have q1: "q \<le> of_int sf"
  proof -
    have "of_int sf * rf \<le> of_int sf * 1" using sfr rf1 by (intro mult_left_mono) simp_all
    then show ?thesis unfolding q_def using rsf by (intro rnd_le) simp_all
  qed
  have eq: "\<bar>q - of_int sf * rf\<bar> \<le> 2 powi (46 - 53)"
    unfolding q_def using bq by (rule rnd_err_abs) simp
  have bt: "\<bar>of_int te - q\<bar> \<le> 2 powi 47" using q0 q1 sfr ter by simp
  have t0: "- q \<le> tf"
    unfolding tf_def using ter(1) by (intro rnd_ge repr_minus) (simp_all add: q_def rnd_repr)
  have t1: "tf \<le> of_int te"
    unfolding tf_def using q0 rte by (intro rnd_le) simp_all
  have et: "\<bar>tf - (of_int te - q)\<bar> \<le> 2 powi (47 - 53)"
    unfolding tf_def using bt by (rule rnd_err_abs) simp
  have tfb: "\<bar>tf\<bar> \<le> 2 ^ 47" using t0 t1 q1 sfr ter by simp
  have g0: "- of_int sf \<le> tf / r"
  proof -
    have "- of_int sf * r \<le> - of_int sf * 1" using sfr r1 by (intro mult_left_mono_neg) simp_all
    then have "- of_int sf * r \<le> tf" using t0 q1 by simp
    then show ?thesis using rpos by (simp add: pos_le_divide_eq)
  qed
  have g1: "tf / r \<le> 1"
    using t1 ter(2) rpos by (simp add: pos_divide_le_eq)
  have bg: "\<bar>tf / r\<bar> \<le> 2 powi 47"
  proof -
    have "\<bar>tf / r\<bar> = \<bar>tf\<bar> / r" using rpos by (simp add: abs_divide)
    also have "\<dots> \<le> \<bar>tf\<bar> / 1" using r1 by (intro divide_left_mono) simp_all
    finally show ?thesis using tfb by simp
  qed
  have fs0: "- of_int sf \<le> fs"
    unfolding fs_def using g0 rsf by (intro rnd_ge repr_minus) simp_all
  have fs1: "fs \<le> 1"
  proof -
    have "repr (of_int 1)" by (rule repr_of_int) simp
    then show ?thesis unfolding fs_def using g1 by (intro rnd_le) simp_all
  qed
  have ef: "\<bar>r * fs - tf\<bar> \<le> 2 powi (- 6)"
    unfolding fs_def using r1 r2 tfb by (rule rnd_err_scaled)
  have d1: "d_mul (of_i64 sf) rf = Inr q"
  proof -
    have "of_i64 sf = of_int sf" using sf0 sf1 by (intro of_i64_exact) simp
    moreover have "fl (of_int sf * rf) = Inr (rnd (of_int sf * rf))" using bq by (rule fl_small) simp_all
    ultimately show ?thesis by (simp add: d_mul_def q_def)
  qed
  have d2: "d_sub (of_i64 te) q = Inr tf"
  proof -
    have "of_i64 te = of_int te" using te0 te1 rs(4) by (intro of_i64_exact) simp
    moreover have "fl (of_int te - q) = Inr (rnd (of_int te - q))" using bt by (rule fl_small) simp_all
    ultimately show ?thesis by (simp add: d_sub_def tf_def)
  qed
  have d3: "d_div tf r = Inr fs"
  proof -
    have "fl (tf / r) = Inr (rnd (tf / r))" using bg by (rule fl_small) simp_all
    then show ?thesis using rpos by (simp add: d_div_def fs_def)
  qed
  \<comment> \<open>normalization\<close>
  have fl0: "- sf \<le> \<lfloor>fs\<rfloor>"
  proof -
    have "(of_int (- sf) :: rat) \<le> fs" using fs0 by simp
    then show ?thesis by (simp only: le_floor_iff)
  qed
  have fl1: "\<lfloor>fs\<rfloor> \<le> 1"
  proof -
    have "\<lfloor>fs\<rfloor> \<le> \<lfloor>1::rat\<rfloor>" using fs1 by (rule floor_mono)
    then show ?thesis by simp
  qed
  have w0: "0 \<le> w" and w1: "w \<le> 2 ^ 46" using fl0 fl1 sf1 unfolding w_def by linarith+
  have it: "- sf \<le> itrunc fs" "itrunc fs \<le> 2"
    using itrunc_floor_cases [of fs] fl0 fl1 by auto
  have n1: "set_from time_spec_default sf fs = Inr \<lparr>full_secs = w, frac_secs = f\<rparr>"
  proof -
    have "repr fs" unfolding fs_def by (rule rnd_repr)
    moreover have sfn: "sf < 70368744177664" using sf1 by simp
    have "is_int64 (itrunc fs)" "is_int64 (sf + itrunc fs)" "is_int64 (sf + \<lfloor>fs\<rfloor>)"
      unfolding is_int64_code using it fl0 fl1 sf0 sfn by linarith+
    ultimately show ?thesis
      by (simp add: set_from_general time_spec_default_def w_def f_def)
  qed
  let ?phi = "fs - of_int \<lfloor>fs\<rfloor>"
  have phi: "0 \<le> ?phi" "?phi \<le> 1" by linarith+
  have f0: "0 \<le> f" unfolding f_def using phi(1) by (rule rnd_nonneg)
  have f1: "f \<le> 1"
  proof -
    have "repr (of_int 1)" by (rule repr_of_int) simp
    then show ?thesis unfolding f_def using phi(2) by (intro rnd_le) simp_all
  qed
  have "\<bar>?phi\<bar> \<le> 2 powi 0" using phi by simp
  then have "\<bar>f - ?phi\<bar> \<le> 2 powi (0 - 53)" unfolding f_def by (rule rnd_err_abs) simp
  then have "r * \<bar>f - ?phi\<bar> \<le> 2 ^ 47 * 2 powi (0 - 53)"
    using r1 r2 by (intro mult_mono) simp_all
  then have ephi: "\<bar>r * (f - ?phi)\<bar> \<le> 2 powi (- 6)"
    using rpos by (simp add: abs_mult power_int_minus)
  have near: "\<bar>r * (of_int w + f) - of_int k\<bar> \<le> 1 / 16"
  proof -
    have kk: "(of_int k :: rat) = of_int sf * of_int ri + of_int te"
      by (simp add: ksplit)
    have "r * (of_int w + f) - of_int k
        = (r * fs - tf) + (tf - (of_int te - q)) - (q - of_int sf * rf) + r * (f - ?phi)"
      unfolding kk w_def rf_def by (simp add: algebra_simps)
    then have "\<bar>r * (of_int w + f) - of_int k\<bar>
        \<le> 2 powi (- 6) + 2 powi (47 - 53) + 2 powi (46 - 53) + 2 powi (- 6)"
      using ef et eq ephi by linarith
    also have "\<dots> \<le> 1 / 16" by (simp add: power_int_minus)
    finally show ?thesis .
  qed
  have "from_ticks k r = Inr \<lparr>full_secs = w, frac_secs = f\<rparr>"
    unfolding from_ticks_def time_spec_def
    by (simp add: rs(1,2) i1 i2 i3 d1 d2 d3 n1 flip: rf_def)
  then show ?thesis using w0 w1 f0 f1 near by blast
qed

lemma round_trip_general:
  assumes "is_double r" and "1 \<le> r" and "r \<le> 2 ^ 47"
    and "0 \<le> k" and "k < 2 ^ 63" and "k div \<lfloor>r\<rfloor> < 2 ^ 46"
  shows "\<exists>t. from_ticks k r = Inr t \<and> to_ticks t r = Inr k"
proof -
  obtain w f where "from_ticks k r = Inr \<lparr>full_secs = w, frac_secs = f\<rparr>"
    and "0 \<le> w" "w \<le> 2 ^ 46" "0 \<le> f" "f \<le> 1"
    and "\<bar>r * (of_int w + f) - of_int k\<bar> \<le> 1 / 16"
    using from_ticks_near [OF assms] by blast
  moreover from this have "to_ticks \<lparr>full_secs = w, frac_secs = f\<rparr> r = Inr k"
    using assms(1,2,3,5) by (intro to_ticks_near)
  ultimately show ?thesis by blast
qed

section \<open>Evaluation lemmas\<close>

lemma fast_llround_0: "fast_llround 0 = Inr 0"
  by code_simp

lemma fl_0 [simp]: "fl 0 = Inr 0"
  by (simp add: fl_def)

lemma itrunc_0 [simp]: "itrunc 0 = 0"
  by (simp add: itrunc_def)

lemma is_int64_0 [simp]: "is_int64 0"
  by (simp add: is_int64_def)

lemma to_i64_0 [simp]: "to_i64 0 = Inr 0"
  by (simp add: to_i64_def)

lemma of_i64_0 [simp]: "of_i64 0 = 0"
  by (simp add: of_i64_def)

lemma set_from_receiver:
  fixes t t' :: time_spec_t
  shows "set_from t = set_from t'"
  by (cases t; cases t') (simp add: set_from_def fun_eq_iff cong: if_cong)

lemma i64_Inl: "i64 x = Inl e \<Longrightarrow> e = SignedOverflow"
  by (simp add: i64_def split: if_splits)

lemma fl_Inl: "fl x = Inl e \<Longrightarrow> e = NonFinite"
  by (simp add: fl_def Let_def split: if_splits)

lemma to_i64_Inl: "to_i64 x = Inl e \<Longrightarrow> e = FloatToIntRange"
  by (simp add: to_i64_def split: if_splits)

lemma d_div_Inl: "d_div x y = Inl e \<Longrightarrow> e = NonFinite"
  by (auto simp: d_div_def dest: fl_Inl split: if_splits)

lemma bnd_Inl: "bnd m f = Inl e \<Longrightarrow> m = Inl e \<or> (\<exists>v. m = Inr v \<and> f v = Inl e)"
  by (cases m) simp_all

lemma set_from_no_div: "set_from this s f \<noteq> Inl DivideByZero"
proof
  assume "set_from this s f = Inl DivideByZero"
  then show False
    unfolding set_from_def i64_add_def i64_sub_def d_sub_def d_add_def
    by (auto dest!: bnd_Inl dest: i64_Inl fl_Inl to_i64_Inl split: if_splits)
qed

lemma sdiv_in_range:
  assumes "is_int64 k" and "1 \<le> d"
  shows "is_int64 (k sdiv d)"
proof -
  have "0 \<le> \<bar>k\<bar> div d" using assms(2) by (simp add: pos_imp_zdiv_nonneg_iff)
  moreover have "\<bar>k\<bar> div d \<le> \<bar>k\<bar>"
    using zdiv_mono2 [of "\<bar>k\<bar>" 1 d] assms(2) by simp
  moreover have "k sdiv d = sgn k * (\<bar>k\<bar> div d)"
    using assms(2) by (simp add: signed_divide_int_def)
  ultimately show ?thesis
    using assms(1) by (cases "0 \<le> k") (auto simp: is_int64_def sgn_if)
qed


lemma is_double_3_2: "is_double (3 / 2)"
  by code_simp

lemma is_double_1_2: "is_double (1 / 2)"
  by code_simp

lemma is_double_200e6: "is_double 200000000"
  by code_simp

lemma rate_61_44e6_by_27:
  "is_double rate_61_44e6_by_27" "\<lfloor>rate_61_44e6_by_27\<rfloor> = 2275555"
  "1 \<le> rate_61_44e6_by_27" "rate_61_44e6_by_27 \<le> 2 ^ 47"
  by code_simp+





lemma is_double_2_63: "is_double (2 ^ 63)"
  by code_simp

lemma itrunc_3_2: "itrunc (3 / 2) = 1"
  by code_simp

section \<open>Tick rate zero\<close>

text \<open>
  C2 (as stated, refuted): \<open>to_ticks(0)\<close> does not fail. At whole = 5, frac = 0.25 it
  returns the tick count 0.
\<close>

theorem to_ticks_zero_rate_counterexample:
  "to_ticks \<lparr>full_secs = 5, frac_secs = 1 / 4\<rparr> 0 = Inr 0"
  by (simp add: to_ticks_def get_full_secs_def get_frac_secs_def d_sub_def d_mul_def
      d_add_def i64_mul_def i64_add_def i64_def fast_llround_0)

text \<open>
  C2 (amended): no guard exists for a zero rate. For every tick count,
  \<open>from_ticks(k, 0)\<close> reaches the integer division \<open>ticks / 0\<close>, which is undefined
  and yields no value; for every time value, \<open>to_ticks(0)\<close> returns 0.
\<close>

theorem zero_rate_unguarded:
  "from_ticks k 0 = Inl DivideByZero \<and> to_ticks t 0 = Inr 0"
  by (simp add: from_ticks_def to_ticks_def d_sub_def d_mul_def d_add_def i64_div_def
      i64_mul_def i64_add_def i64_def fast_llround_0)

section \<open>In-place and binary operators\<close>

text \<open>
  C9: each in-place operator leaves in the receiver the value that the binary operator
  returns: \<open>a += b\<close> and \<open>a + b\<close>, \<open>a -= b\<close> and \<open>a - b\<close>, and the same with a double on
  the right-hand side.
\<close>

theorem inplace_agrees_with_binary:
  "op_plus_assign a b = op_plus a b
   \<and> op_minus_assign a b = op_minus a b
   \<and> op_plus_assign_double a r = op_plus_double a r
   \<and> op_minus_assign_double a r = op_minus_double a r"
  unfolding op_plus_assign_def op_plus_def op_minus_assign_def op_minus_def
    op_plus_assign_double_def op_plus_double_def op_minus_assign_double_def
    op_minus_double_def time_spec_def
  by (simp add: set_from_receiver [of a time_spec_default])

section \<open>Ordering\<close>

text \<open>
  C6: of \<open>a < b\<close>, \<open>a == b\<close>, \<open>a > b\<close> exactly one holds; \<open>a <= b\<close> is \<open>a < b\<close> or
  \<open>a == b\<close>, \<open>a >= b\<close> is \<open>a > b\<close> or \<open>a == b\<close>; the order is the lexicographic one on
  (whole seconds, fractional seconds); equality is equality of both components.
\<close>

theorem ordering_total:
  "of_bool (op_lt a b) + of_bool (op_eq a b) + of_bool (op_gt a b) = (1::nat)
   \<and> (op_le a b \<longleftrightarrow> op_lt a b \<or> op_eq a b)
   \<and> (op_ge a b \<longleftrightarrow> op_gt a b \<or> op_eq a b)
   \<and> (op_lt a b \<longleftrightarrow> (full_secs a, frac_secs a) < (full_secs b, frac_secs b))
   \<and> (op_gt a b \<longleftrightarrow> op_lt b a)
   \<and> (op_eq a b \<longleftrightarrow> a = b)
   \<and> (op_ne a b \<longleftrightarrow> a \<noteq> b)"
  unfolding op_lt_def op_eq_def op_gt_def op_le_def op_ge_def op_ne_def
    get_full_secs_def get_frac_secs_def less_prod_def
  by (cases a; cases b) auto

theorem ordering_total_witness:
  "of_bool (op_lt \<lparr>full_secs = 1, frac_secs = 3 / 4\<rparr> \<lparr>full_secs = 2, frac_secs = 1 / 4\<rparr>)
   + of_bool (op_eq \<lparr>full_secs = 1, frac_secs = 3 / 4\<rparr> \<lparr>full_secs = 2, frac_secs = 1 / 4\<rparr>)
   + of_bool (op_gt \<lparr>full_secs = 1, frac_secs = 3 / 4\<rparr> \<lparr>full_secs = 2, frac_secs = 1 / 4\<rparr>)
   = (1::nat)"
  using ordering_total [of "\<lparr>full_secs = 1, frac_secs = 3 / 4\<rparr>"
      "\<lparr>full_secs = 2, frac_secs = 1 / 4\<rparr>"]
  by blast

section \<open>Normalization on construction\<close>




section \<open>Normalization of the arithmetic operators\<close>

text \<open>
  C4 (the code differs): both operands satisfy the normalization invariant, and
  \<open>time_spec_t(0, 0) - time_spec_t(0, 2^-60)\<close> has the fractional component 1, outside
  [0, 1); so has \<open>time_spec_t(0, 0) + (-2^-60)\<close>, with a double on the right-hand side.
\<close>

theorem minus_leaks_fraction_one:
  "normalized \<lparr>full_secs = 0, frac_secs = 0\<rparr>
   \<and> normalized \<lparr>full_secs = 0, frac_secs = 1 / 2 ^ 60\<rparr>
   \<and> op_minus \<lparr>full_secs = 0, frac_secs = 0\<rparr> \<lparr>full_secs = 0, frac_secs = 1 / 2 ^ 60\<rparr>
       = Inr \<lparr>full_secs = - 1, frac_secs = 1\<rparr>
   \<and> is_double (- (1 / 2 ^ 60))
   \<and> op_plus_double \<lparr>full_secs = 0, frac_secs = 0\<rparr> (- (1 / 2 ^ 60))
       = Inr \<lparr>full_secs = - 1, frac_secs = 1\<rparr>
   \<and> \<not> normalized \<lparr>full_secs = - 1, frac_secs = 1\<rparr>"
  by code_simp

text \<open>
  C7: \<open>time_spec_t(0, 0) + time_spec_t(0, 0.9) + time_spec_t(0, 0.9)\<close>, in double
  arithmetic, is whole = 1 and frac = the double \<open>0.8\<close>.
\<close>

theorem carry_scenario:
  "bnd (time_spec 0 0) (\<lambda>a.
   bnd (time_spec 0 (lit (9 / 10))) (\<lambda>b.
   bnd (op_plus a b) (\<lambda>ab.
   bnd (time_spec 0 (lit (9 / 10))) (\<lambda>c.
     op_plus ab c))))
   = Inr \<lparr>full_secs = 1, frac_secs = lit (8 / 10)\<rparr>"
  by code_simp

section \<open>Conversion of the fractional seconds to ticks\<close>

text \<open>
  C5 (the code differs): the time value whole = 0, frac = \<open>0.5 - 2^-54\<close>, the double
  next below 0.5, satisfies the normalization invariant. At the tick rate 1 the product
  is the fractional component itself, which rounded half-up is 0; \<open>fast_llround\<close> adds
  0.5 in double arithmetic, the sum \<open>1 - 2^-54\<close> rounds to 1, and \<open>get_tick_count\<close>
  returns 1.
\<close>

theorem get_tick_count_below_half:
  "normalized \<lparr>full_secs = 0, frac_secs = 1 / 2 - 1 / 2 ^ 54\<rparr>
   \<and> is_double 1
   \<and> d_mul (1 / 2 - 1 / 2 ^ 54) 1 = Inr (1 / 2 - 1 / 2 ^ 54)
   \<and> d_add (1 / 2 - 1 / 2 ^ 54) (1 / 2) = Inr 1
   \<and> fast_llround (1 / 2 - 1 / 2 ^ 54) = Inr 1
   \<and> get_tick_count \<lparr>full_secs = 0, frac_secs = 1 / 2 - 1 / 2 ^ 54\<rparr> 1 = Inr 1
   \<and> \<lfloor>(1 / 2 - 1 / 2 ^ 54) * 1 + 1 / 2 :: rat\<rfloor> = 0"
  by code_simp

text \<open>
  At every other product \<open>x\<close> from 0 up to \<open>2^51\<close>, of a fractional component and a
  tick rate that are not negative, \<open>get_tick_count\<close> returns \<open>floor (x + 1/2)\<close>.
\<close>

lemma get_tick_count_half_up:
  assumes "0 \<le> frac_secs t" and "0 \<le> tick_rate"
    and "rnd (frac_secs t * tick_rate) < 2 ^ 51"
    and "rnd (frac_secs t * tick_rate) \<noteq> 1 / 2 - 1 / 2 ^ 54"
  shows "get_tick_count t tick_rate = Inr \<lfloor>rnd (frac_secs t * tick_rate) + 1 / 2\<rfloor>"
proof -
  let ?x = "rnd (frac_secs t * tick_rate)"
  have x0: "0 \<le> ?x" using assms(1,2) by (intro rnd_nonneg) simp
  have "(2::rat) ^ 51 < 2 ^ 1024" by (rule power_strict_increasing) simp_all
  then have "\<bar>?x\<bar> < 2 ^ 1024" using x0 assms(3) by simp
  then have "d_mul (get_frac_secs t) tick_rate = Inr ?x"
    by (simp add: d_mul_def get_frac_secs_def fl_def)
  moreover have "fast_llround ?x = Inr \<lfloor>?x + 1 / 2\<rfloor>"
    using rnd_repr x0 assms(3,4) by (rule fast_llround_half_up)
  ultimately show ?thesis by (simp add: get_tick_count_def)
qed

section \<open>The divisor of \<open>from_ticks\<close>\<close>

text \<open>
  C10 (as stated, refuted): the tick rate \<open>2^63\<close> is at least 1, and so is its
  truncation, but its conversion to \<open>int64_t\<close> is undefined: \<open>from_ticks\<close> has no
  divisor \<open>rate_i\<close> there.
\<close>

theorem from_ticks_rate_counterexample:
  "is_int64 7 \<and> is_double (2 ^ 63) \<and> 1 \<le> itrunc (2 ^ 63) \<and> (1::rat) \<le> 2 ^ 63
   \<and> to_i64 (2 ^ 63) = Inl FloatToIntRange
   \<and> from_ticks 7 (2 ^ 63) = Inl FloatToIntRange"
  by code_simp

text \<open>
  C10 (amended): for every \<open>int64_t\<close> tick count and every double tick rate, the
  truncation of the rate is at least 1 exactly when the rate is at least 1. For
  \<open>1 \<le> tick_rate < 2^63\<close> the divisor \<open>rate_i\<close> is that truncation, the division
  \<open>ticks / rate_i\<close> is defined and \<open>from_ticks\<close> does not divide by zero; for
  \<open>0 < tick_rate < 1\<close> the divisor is 0 and \<open>from_ticks\<close> divides by zero; for
  \<open>tick_rate \<ge> 2^63\<close> the conversion of the rate to \<open>int64_t\<close> is undefined.
\<close>

theorem from_ticks_divisor:
  assumes "is_double tick_rate" and "is_int64 ticks"
  shows "(1 \<le> itrunc tick_rate \<longleftrightarrow> 1 \<le> tick_rate)
    \<and> (1 \<le> tick_rate \<and> tick_rate < 2 ^ 63 \<longrightarrow>
          to_i64 tick_rate = Inr (itrunc tick_rate)
          \<and> i64_div ticks (itrunc tick_rate) = Inr (ticks sdiv itrunc tick_rate)
          \<and> from_ticks ticks tick_rate \<noteq> Inl DivideByZero)
    \<and> (0 < tick_rate \<and> tick_rate < 1 \<longrightarrow>
          to_i64 tick_rate = Inr 0
          \<and> from_ticks ticks tick_rate = Inl DivideByZero)
    \<and> (2 ^ 63 \<le> tick_rate \<longrightarrow>
          to_i64 tick_rate = Inl FloatToIntRange
          \<and> from_ticks ticks tick_rate = Inl FloatToIntRange)"
proof (intro conjI impI)
  show iff: "1 \<le> itrunc tick_rate \<longleftrightarrow> 1 \<le> tick_rate"
    unfolding itrunc_def by (auto simp: le_floor_iff)
  {
    assume a: "1 \<le> tick_rate \<and> tick_rate < 2 ^ 63"
    then have pos: "1 \<le> itrunc tick_rate" using iff by simp
    have "itrunc tick_rate = \<lfloor>tick_rate\<rfloor>" using a by (simp add: itrunc_def)
    moreover have "\<lfloor>tick_rate\<rfloor> < 2 ^ 63" using a by (simp add: floor_less_iff)
    ultimately have "is_int64 (itrunc tick_rate)" using pos by (simp add: is_int64_def)
    then show c: "to_i64 tick_rate = Inr (itrunc tick_rate)" by (rule to_i64_eq)
    show d: "i64_div ticks (itrunc tick_rate) = Inr (ticks sdiv itrunc tick_rate)"
      using sdiv_in_range [OF assms(2) pos] pos by (simp add: i64_div_def i64_def)
    show "from_ticks ticks tick_rate \<noteq> Inl DivideByZero"
    proof
      assume "from_ticks ticks tick_rate = Inl DivideByZero"
      then show False
        unfolding from_ticks_def c d bnd.simps time_spec_def
          i64_mul_def i64_sub_def d_sub_def d_mul_def
        using set_from_no_div
        by (auto dest!: bnd_Inl dest: i64_Inl fl_Inl d_div_Inl)
    qed
  }
  {
    assume a: "0 < tick_rate \<and> tick_rate < 1"
    then have z: "itrunc tick_rate = 0" unfolding itrunc_def by (simp add: floor_eq_iff)
    then show c: "to_i64 tick_rate = Inr 0" by (simp add: to_i64_def is_int64_def)
    have "fl tick_rate = Inr tick_rate"
      using assms(1) by (simp add: fl_def is_double_def)
    then show "from_ticks ticks tick_rate = Inl DivideByZero"
      unfolding from_ticks_def c by (simp add: d_sub_def i64_div_def)
  }
  {
    assume a: "2 ^ 63 \<le> tick_rate"
    have "(0::rat) \<le> 2 ^ 63" by simp
    then have "0 \<le> tick_rate" using a by (rule order_trans)
    then have "itrunc tick_rate = \<lfloor>tick_rate\<rfloor>" by (simp add: itrunc_def)
    moreover have "2 ^ 63 \<le> \<lfloor>tick_rate\<rfloor>" using a by (simp add: le_floor_iff)
    ultimately have "\<not> is_int64 (itrunc tick_rate)" by (simp add: is_int64_def)
    then show c: "to_i64 tick_rate = Inl FloatToIntRange" by (simp add: to_i64_def)
    show "from_ticks ticks tick_rate = Inl FloatToIntRange"
      unfolding from_ticks_def c by simp
  }
qed

theorem from_ticks_divisor_witness:
  "to_i64 (3 / 2) = Inr 1 \<and> i64_div 7 1 = Inr 7 \<and> from_ticks 7 (3 / 2) \<noteq> Inl DivideByZero
   \<and> to_i64 (1 / 2) = Inr 0 \<and> from_ticks 7 (1 / 2) = Inl DivideByZero
   \<and> from_ticks 7 (2 ^ 63) = Inl FloatToIntRange"
proof -
  have a: "is_int64 7" by code_simp
  have b: "(1::rat) \<le> 3 / 2 \<and> (3 / 2 :: rat) < 2 ^ 63" "(0::rat) < 1 / 2 \<and> (1 / 2 :: rat) < 1"
    "(2::rat) ^ 63 \<le> 2 ^ 63"
    by simp_all
  show ?thesis
    using from_ticks_divisor [OF is_double_3_2 a] from_ticks_divisor [OF is_double_1_2 a]
      from_ticks_divisor [OF is_double_2_63 a] b
    by (simp add: itrunc_3_2 signed_divide_int_def)
qed

section \<open>Round trip through ticks\<close>

text \<open>
  C1 (the code differs): \<open>from_ticks(-3, 1.5)\<close> is the time value whole = -2, frac = 0,
  which is -3 ticks exactly. \<open>to_ticks(1.5)\<close> of it passes the sum -1.0 to
  \<open>fast_llround\<close>, which truncates -0.5 to 0, and returns -2. At the tick rate
  \<open>61.44e6 / 27\<close> the tick count -4551111 comes back as -4551110.
\<close>

theorem round_trip_negative_ticks:
  "is_int64 (- 3) \<and> is_double (3 / 2)
   \<and> from_ticks (- 3) (3 / 2) = Inr \<lparr>full_secs = - 2, frac_secs = 0\<rparr>
   \<and> (of_int (- 2) + 0) * (3 / 2) = (of_int (- 3) :: rat)
   \<and> d_add (- 1) 0 = Inr (- 1)
   \<and> fast_llround (- 1) = Inr 0
   \<and> to_ticks \<lparr>full_secs = - 2, frac_secs = 0\<rparr> (3 / 2) = Inr (- 2)
   \<and> is_int64 (- 4551111) \<and> is_double rate_61_44e6_by_27
   \<and> from_ticks (- 4551111) rate_61_44e6_by_27
       = Inr \<lparr>full_secs = - 2, frac_secs = 7378697622611873 / 2 ^ 77\<rparr>
   \<and> to_ticks \<lparr>full_secs = - 2, frac_secs = 7378697622611873 / 2 ^ 77\<rparr> rate_61_44e6_by_27
       = Inr (- 4551110)"
  by code_simp

text \<open>
  For every tick count \<open>k\<close> with \<open>0 \<le> k < 2^63\<close> and every double tick rate \<open>r\<close> with
  \<open>1 \<le> r \<le> 2^47\<close> and \<open>k / trunc r < 2^46\<close> (integer division), \<open>from_ticks(k, r)\<close> is
  defined and \<open>from_ticks(k, r).to_ticks(r)\<close> is exactly \<open>k\<close>; this holds for every such
  \<open>k\<close> at the rates \<open>200e6\<close> and \<open>61.44e6 / 27\<close>.
\<close>

lemma round_trip_nonnegative:
  assumes "0 \<le> k" and "k < 2 ^ 63"
  shows "(is_double r \<and> 1 \<le> r \<and> r \<le> 2 ^ 47 \<and> k div \<lfloor>r\<rfloor> < 2 ^ 46
            \<longrightarrow> (\<exists>t. from_ticks k r = Inr t \<and> to_ticks t r = Inr k))
    \<and> (\<exists>t. from_ticks k 200000000 = Inr t \<and> to_ticks t 200000000 = Inr k)
    \<and> (\<exists>t. from_ticks k rate_61_44e6_by_27 = Inr t
            \<and> to_ticks t rate_61_44e6_by_27 = Inr k)"
proof (intro conjI impI)
  assume "is_double r \<and> 1 \<le> r \<and> r \<le> 2 ^ 47 \<and> k div \<lfloor>r\<rfloor> < 2 ^ 46"
  then show "\<exists>t. from_ticks k r = Inr t \<and> to_ticks t r = Inr k"
    using assms by (intro round_trip_general) simp_all
next
  have k': "k \<le> 9223372036854775807" using assms(2) by simp
  have "k div 200000000 \<le> 9223372036854775807 div 200000000"
    using k' by (intro zdiv_mono1) simp_all
  then have "k div \<lfloor>200000000 :: rat\<rfloor> < 2 ^ 46" by simp
  then show "\<exists>t. from_ticks k 200000000 = Inr t \<and> to_ticks t 200000000 = Inr k"
    using assms is_double_200e6 by (intro round_trip_general) simp_all
next
  have k': "k \<le> 9223372036854775807" using assms(2) by simp
  have "k div 2275555 \<le> 9223372036854775807 div 2275555"
    using k' by (intro zdiv_mono1) simp_all
  then have "k div \<lfloor>rate_61_44e6_by_27\<rfloor> < 2 ^ 46" by (simp add: rate_61_44e6_by_27(2))
  then show "\<exists>t. from_ticks k rate_61_44e6_by_27 = Inr t
      \<and> to_ticks t rate_61_44e6_by_27 = Inr k"
    using assms rate_61_44e6_by_27 by (intro round_trip_general)
qed

text \<open>
  At the tick rate \<open>2^53\<close> the tick count \<open>2^53 - 1\<close> comes back as \<open>2^53\<close>, without
  any overflow: the sum \<open>x + 0.5\<close> in \<open>fast_llround\<close> is not a double there, and rounds
  up.
\<close>

lemma round_trip_precision:
  "is_int64 (2 ^ 53 - 1) \<and> is_double (2 ^ 53)
   \<and> from_ticks (2 ^ 53 - 1) (2 ^ 53) = Inr \<lparr>full_secs = 0, frac_secs = 1 - 1 / 2 ^ 53\<rparr>
   \<and> to_ticks \<lparr>full_secs = 0, frac_secs = 1 - 1 / 2 ^ 53\<rparr> (2 ^ 53) = Inr (2 ^ 53)"
  by code_simp

section \<open>Stream output\<close>

text \<open>
  C8 (the code differs): \<open>time_spec_t(5, 0.25)\<close> is written as \<open>5.2500000000000000\<close> and
  \<open>time_spec_t(-1, 0.5)\<close> as \<open>-1.5000000000000000\<close>, but a fractional component below
  \<open>1e-4\<close> is formatted in exponent notation and loses its leading digit:
  \<open>time_spec_t(5, 2^-20)\<close>, which is 5.00000095367431640625 s, is written as
  \<open>5.536743164062500e-07\<close>.
\<close>

theorem stream_exponent:
  "op_stream \<lparr>full_secs = 5, frac_secs = 1 / 4\<rparr> = ''5.2500000000000000''
   \<and> op_stream \<lparr>full_secs = - 1, frac_secs = 1 / 2\<rparr> = ''-1.5000000000000000''
   \<and> normalized \<lparr>full_secs = 5, frac_secs = 1 / 2 ^ 20\<rparr>
   \<and> op_stream \<lparr>full_secs = 5, frac_secs = 1 / 2 ^ 20\<rparr> = ''5.536743164062500e-07''"
  by code_simp

end
